theory Spec2Isabelle
  imports Main
begin

section \<open>Data model of btree.go\<close>

text \<open>
  The stored elements are the repository's own \<^verbatim>\<open>Int\<close> type (\<^verbatim>\<open>type Int int\<close>), whose
  \<^verbatim>\<open>Less\<close> is \<open><\<close> on integers. A Go \<^verbatim>\<open>Item\<close> result that may be \<^verbatim>\<open>nil\<close> is an
  \<open>Item option\<close>. Pointers are indices into the object lists of the store: a
  \<^verbatim>\<open>*node\<close> indexes \<open>heap\<close>, a \<^verbatim>\<open>*copyOnWriteContext\<close> indexes \<open>cows\<close>, a
  \<^verbatim>\<open>*FreeList\<close> indexes \<open>fls\<close> and a \<^verbatim>\<open>*BTree\<close> indexes \<open>trees\<close>. Allocation
  appends to the list, so a new object never aliases an old one.
\<close>

type_synonym Item = int
type_synonym addr = nat
type_synonym cowp = nat
type_synonym flp = nat
type_synonym treep = nat

datatype error = IndexOutOfRange | NilDeref | BadDegree | NilItem | OutOfFuel

text \<open>\<^verbatim>\<open>type node struct { items items; children children; cow *copyOnWriteContext }\<close>\<close>

record node =
  items :: "Item list"
  children :: "addr list"
  cow :: "cowp option"

text \<open>\<^verbatim>\<open>type FreeList struct { mu sync.Mutex; freelist []*node }\<close>; \<open>cap\<close> is the capacity
  of the slice, fixed by \<^verbatim>\<open>make([]*node, 0, size)\<close>. The mutex has no sequential effect.\<close>

record FreeList =
  freelist :: "addr list"
  cap :: nat

text \<open>Go's \<^verbatim>\<open>int\<close> is a 64-bit two's complement integer on the platforms the package
  is built for. Values of that type are kept as \<open>int\<close>; arithmetic on them is wrapped
  into the range \<open>- 2^63 .. 2^63 - 1\<close> by \<open>wrap64\<close>, and \<open>quot2\<close> is Go's \<^verbatim>\<open>x / 2\<close>,
  which truncates towards zero. Lengths of slices are natural numbers.\<close>

definition wrap64 :: "int \<Rightarrow> int" where
  "wrap64 x = (x + 2 ^ 63) mod 2 ^ 64 - 2 ^ 63"

definition quot2 :: "int \<Rightarrow> int" where
  "quot2 x = (if x < 0 then - ((- x) div 2) else x div 2)"

text \<open>\<^verbatim>\<open>type BTree struct { degree int; length int; root *node; cow *copyOnWriteContext }\<close>\<close>

record BTree =
  tdegree :: int
  tlength :: int
  troot :: "addr option"
  tcow :: cowp

text \<open>The store. A \<^verbatim>\<open>copyOnWriteContext\<close> object has the single field \<^verbatim>\<open>freelist\<close>,
  so \<open>cows\<close> maps a context to the pool it points to.\<close>

record state =
  heap :: "node list"
  cows :: "flp list"
  fls :: "FreeList list"
  trees :: "BTree list"

datatype freeType = ftFreelistFull | ftStored | ftNotOwned

datatype toRemove = removeItem | removeMin | removeMax

section \<open>Computations that may panic\<close>

text \<open>A computation either returns a value and the new store, or panics. A panic
  carries the store as it is at the moment of the fault: every write made before the
  fault stays made, which is what a caller that recovers from the panic finds.\<close>

type_synonym 'a M = "state \<Rightarrow> (error \<times> state) + ('a \<times> state)"

definition ret :: "'a \<Rightarrow> 'a M" where
  "ret x = (\<lambda>s. Inr (x, s))"

definition panic :: "error \<Rightarrow> 'a M" where
  "panic e = (\<lambda>s. Inl (e, s))"

definition bnd :: "'a M \<Rightarrow> ('a \<Rightarrow> 'b M) \<Rightarrow> 'b M" where
  "bnd m f = (\<lambda>s. case m s of Inl e \<Rightarrow> Inl e | Inr (x, s') \<Rightarrow> f x s')"

definition sq :: "unit M \<Rightarrow> 'b M \<Rightarrow> 'b M" where
  "sq m k = bnd m (\<lambda>_. k)"

text \<open>\<^verbatim>\<open>xs[i]\<close>: a read out of range panics.\<close>

definition index :: "'a list \<Rightarrow> nat \<Rightarrow> 'a M" where
  "index xs i = (if i < length xs then ret (xs ! i) else panic IndexOutOfRange)"

text \<open>An index computed in \<^verbatim>\<open>int\<close> arithmetic may be negative; it is checked before it
  is used as a position.\<close>

definition position :: "int \<Rightarrow> nat M" where
  "position i = (if i < 0 then panic IndexOutOfRange else ret (nat i))"

text \<open>Reading and writing the fields of \<^verbatim>\<open>*n\<close>.\<close>

definition load :: "addr \<Rightarrow> node M" where
  "load a = (\<lambda>s. if a < length (heap s) then Inr (heap s ! a, s) else Inl (NilDeref, s))"

definition store :: "addr \<Rightarrow> node \<Rightarrow> unit M" where
  "store a n = (\<lambda>s. if a < length (heap s) then Inr ((), s\<lparr>heap := (heap s)[a := n]\<rparr>)
                     else Inl (NilDeref, s))"

definition get_items :: "addr \<Rightarrow> Item list M" where
  "get_items a = bnd (load a) (\<lambda>n. ret (items n))"

definition get_children :: "addr \<Rightarrow> addr list M" where
  "get_children a = bnd (load a) (\<lambda>n. ret (children n))"

definition get_cow :: "addr \<Rightarrow> cowp option M" where
  "get_cow a = bnd (load a) (\<lambda>n. ret (cow n))"

definition set_items :: "addr \<Rightarrow> Item list \<Rightarrow> unit M" where
  "set_items a xs = bnd (load a) (\<lambda>n. store a (n\<lparr>items := xs\<rparr>))"

definition set_children :: "addr \<Rightarrow> addr list \<Rightarrow> unit M" where
  "set_children a cs = bnd (load a) (\<lambda>n. store a (n\<lparr>children := cs\<rparr>))"

definition set_cow :: "addr \<Rightarrow> cowp option \<Rightarrow> unit M" where
  "set_cow a c = bnd (load a) (\<lambda>n. store a (n\<lparr>cow := c\<rparr>))"

text \<open>\<^verbatim>\<open>new(node)\<close>: all fields zero.\<close>

definition new_node :: "addr M" where
  "new_node = (\<lambda>s. Inr (length (heap s),
                 s\<lparr>heap := heap s @ [\<lparr>items = [], children = [], cow = None\<rparr>]\<rparr>))"

section \<open>Slice primitives (items and children share them)\<close>

text \<open>\<^verbatim>\<open>insertAt\<close>: append a nil slot, shift, store; the store panics when
  \<open>index\<close> is beyond the old length. (In that case the source has already appended the
  nil slot to the slice; an \<open>Item list\<close> has no nil, so the slice is left as it was. Only
  \<^verbatim>\<open>maybeSplitChild\<close> on a node with more than \<open>len(items) + 1\<close> children can get
  there.)\<close>

definition insertAt :: "nat \<Rightarrow> 'a \<Rightarrow> 'a list \<Rightarrow> 'a list M" where
  "insertAt i x xs = (if i \<le> length xs then ret (take i xs @ [x] @ drop i xs)
                      else panic IndexOutOfRange)"

text \<open>\<^verbatim>\<open>removeAt\<close>: reads \<^verbatim>\<open>(*i)[index]\<close> first, which panics out of range.\<close>

definition removeAt :: "nat \<Rightarrow> 'a list \<Rightarrow> ('a \<times> 'a list) M" where
  "removeAt i xs = (if i < length xs then ret (xs ! i, take i xs @ drop (Suc i) xs)
                    else panic IndexOutOfRange)"

text \<open>\<^verbatim>\<open>pop\<close>: on an empty slice the index is -1 and the read panics.\<close>

definition pop :: "'a list \<Rightarrow> ('a \<times> 'a list) M" where
  "pop xs = (if xs = [] then panic IndexOutOfRange else ret (last xs, butlast xs))"

text \<open>\<^verbatim>\<open>truncate(index)\<close> keeps \<^verbatim>\<open>(*i)[:index]\<close> and clears the rest. Every call in
  the source has \<open>index \<le> len\<close> (an earlier read at \<open>index\<close> or a slice from
  \<open>index\<close> has already succeeded), so the result is \<open>take index\<close>.\<close>

definition truncate_at :: "nat \<Rightarrow> 'a list \<Rightarrow> 'a list" where
  "truncate_at i xs = take i xs"

text \<open>\<^verbatim>\<open>xs[i:]\<close> panics when \<open>i\<close> exceeds the length.\<close>

definition slice_from :: "nat \<Rightarrow> 'a list \<Rightarrow> 'a list M" where
  "slice_from i xs = (if i \<le> length xs then ret (drop i xs) else panic IndexOutOfRange)"

text \<open>The loop of the standard library's \<^verbatim>\<open>sort.Search(n, f)\<close>, started at \<open>i = 0\<close>,
  \<open>j = n\<close>: \<^verbatim>\<open>for i < j { h := (i+j)/2; if !f(h) { i = h+1 } else { j = h } }; return i\<close>.\<close>

function search :: "nat \<Rightarrow> nat \<Rightarrow> (nat \<Rightarrow> bool) \<Rightarrow> nat" where
  "search i j f = (if i < j then (let h = (i + j) div 2 in
                     if \<not> f h then search (h + 1) j f else search i h f)
                   else i)"
  by pat_completeness auto
termination
  by (relation "measure (\<lambda>(i, j, f). j - i)") auto

declare search.simps [simp del]

text \<open>\<^verbatim>\<open>func (i items) find(item Item) (index int, found bool)\<close>\<close>

definition items_find :: "Item list \<Rightarrow> Item \<Rightarrow> nat \<times> bool" where
  "items_find i item =
     (let n = search 0 (length i) (\<lambda>n. item < i ! n) in
      if n > 0 \<and> \<not> (i ! (n - 1) < item) then (n - 1, True) else (n, False))"

section \<open>The node pool\<close>

text \<open>\<^verbatim>\<open>NewFreeList(size)\<close>: an empty slice of capacity \<open>size\<close>.\<close>

definition NewFreeList :: "nat \<Rightarrow> FreeList" where
  "NewFreeList sz = \<lparr>freelist = [], cap = sz\<rparr>"

text \<open>\<^verbatim>\<open>(*FreeList).freeNode\<close> on the pool object itself: the new pool and \<open>out\<close>.\<close>

definition FreeList_freeNode :: "FreeList \<Rightarrow> addr \<Rightarrow> FreeList \<times> bool" where
  "FreeList_freeNode f n =
     (if length (freelist f) < cap f then (f\<lparr>freelist := freelist f @ [n]\<rparr>, True)
      else (f, False))"

text \<open>\<^verbatim>\<open>(*FreeList).newNode\<close> on the pool object: \<open>None\<close> stands for \<^verbatim>\<open>new(node)\<close>.\<close>

definition FreeList_newNode :: "FreeList \<Rightarrow> FreeList \<times> addr option" where
  "FreeList_newNode f =
     (if freelist f = [] then (f, None)
      else (f\<lparr>freelist := butlast (freelist f)\<rparr>, Some (last (freelist f))))"

text \<open>A pool after a sequence of releases.\<close>

fun release_all :: "FreeList \<Rightarrow> addr list \<Rightarrow> FreeList" where
  "release_all f [] = f"
| "release_all f (n # ns) = release_all (fst (FreeList_freeNode f n)) ns"

text \<open>The same two methods on a pool in the store. \<^verbatim>\<open>f.freelist[index] = nil\<close> and
  the mutex leave nothing to observe.\<close>

definition load_fl :: "flp \<Rightarrow> FreeList M" where
  "load_fl f = (\<lambda>s. if f < length (fls s) then Inr (fls s ! f, s) else Inl (NilDeref, s))"

definition store_fl :: "flp \<Rightarrow> FreeList \<Rightarrow> unit M" where
  "store_fl f v = (\<lambda>s. if f < length (fls s) then Inr ((), s\<lparr>fls := (fls s)[f := v]\<rparr>)
                       else Inl (NilDeref, s))"

definition pool_newNode :: "flp \<Rightarrow> addr M" where
  "pool_newNode f = bnd (load_fl f) (\<lambda>fl.
     case FreeList_newNode fl of
       (fl', None) \<Rightarrow> new_node
     | (fl', Some n) \<Rightarrow> sq (store_fl f fl') (ret n))"

definition pool_freeNode :: "flp \<Rightarrow> addr \<Rightarrow> bool M" where
  "pool_freeNode f n = bnd (load_fl f) (\<lambda>fl.
     case FreeList_freeNode fl n of (fl', out) \<Rightarrow> sq (store_fl f fl') (ret out))"

section \<open>The copy-on-write context\<close>

text \<open>\<^verbatim>\<open>c.freelist\<close>: dereferences the context, so a nil context panics.\<close>

definition pool_of :: "cowp option \<Rightarrow> flp M" where
  "pool_of c = (\<lambda>s. case c of
       None \<Rightarrow> Inl (NilDeref, s)
     | Some k \<Rightarrow> if k < length (cows s) then Inr (cows s ! k, s) else Inl (NilDeref, s))"

text \<open>\<^verbatim>\<open>func (c *copyOnWriteContext) newNode() (n *node)\<close>\<close>

definition cow_newNode :: "cowp option \<Rightarrow> addr M" where
  "cow_newNode c =
     bnd (pool_of c) (\<lambda>f.
      bnd (pool_newNode f) (\<lambda>n.
       sq (set_cow n c)
       (ret n)))"

text \<open>\<^verbatim>\<open>func (c *copyOnWriteContext) freeNode(n *node) freeType\<close>\<close>

definition cow_freeNode :: "cowp option \<Rightarrow> addr \<Rightarrow> freeType M" where
  "cow_freeNode c n =
     bnd (get_cow n) (\<lambda>nc.
      if nc = c
      then bnd (get_items n) (\<lambda>xs.
       sq (set_items n (truncate_at 0 xs))
       (bnd (get_children n) (\<lambda>cs.
         sq (set_children n (truncate_at 0 cs))
         (sq (set_cow n None)
          (bnd (pool_of c) (\<lambda>f.
            bnd (pool_freeNode f n) (\<lambda>stored.
             if stored
             then ret ftStored
             else ret ftFreelistFull)))))))
      else ret ftNotOwned)"

text \<open>\<^verbatim>\<open>func (n *node) mutableFor(cow *copyOnWriteContext) *node\<close>. Whatever the capacity
  of the recycled slices, \<^verbatim>\<open>out.items\<close> and \<^verbatim>\<open>out.children\<close> end as copies of
  those of \<open>n\<close>.\<close>

definition mutableFor :: "addr \<Rightarrow> cowp option \<Rightarrow> addr M" where
  "mutableFor n c =
     bnd (get_cow n) (\<lambda>nc.
      if nc = c
      then ret n
      else bnd (cow_newNode c) (\<lambda>out.
       bnd (get_items n) (\<lambda>xs.
        sq (set_items out xs)
        (bnd (get_children n) (\<lambda>cs.
          sq (set_children out cs)
          (ret out))))))"

text \<open>\<^verbatim>\<open>func (n *node) mutableChild(i int) *node\<close>\<close>

definition mutableChild :: "addr \<Rightarrow> nat \<Rightarrow> addr M" where
  "mutableChild n i =
     bnd (get_children n) (\<lambda>cs.
      bnd (index cs i) (\<lambda>ch.
       bnd (get_cow n) (\<lambda>nc.
        bnd (mutableFor ch nc) (\<lambda>c.
         bnd (get_children n) (\<lambda>cs'.
          if i < length cs'
          then sq (set_children n (cs'[i := c]))
          (ret c)
          else panic IndexOutOfRange)))))"

section \<open>Split and insert\<close>

text \<open>\<^verbatim>\<open>func (n *node) split(i int) (Item, *node)\<close>\<close>

definition node_split :: "addr \<Rightarrow> int \<Rightarrow> (Item \<times> addr) M" where
  "node_split n j =
     bnd (get_items n) (\<lambda>xs.
      bnd (position j) (\<lambda>i.
       bnd (index xs i) (\<lambda>item.
        bnd (get_cow n) (\<lambda>nc.
         bnd (cow_newNode nc) (\<lambda>next.
          bnd (get_items n) (\<lambda>xs1.
           bnd (slice_from (i + 1) xs1) (\<lambda>tl.
            bnd (get_items next) (\<lambda>nx.
             sq (set_items next (nx @ tl))
             (bnd (get_items n) (\<lambda>xs2.
               sq (set_items n (truncate_at i xs2))
               (bnd (get_children n) (\<lambda>cs.
                 if length cs > 0
                 then bnd (slice_from (i + 1) cs) (\<lambda>ctl.
                  bnd (get_children next) (\<lambda>ncs.
                   sq (set_children next (ncs @ ctl))
                   (bnd (get_children n) (\<lambda>cs2.
                     sq (set_children n (truncate_at (i + 1) cs2))
                     (ret (item, next))))))
                 else ret (item, next)))))))))))))"

text \<open>\<^verbatim>\<open>func (n *node) maybeSplitChild(i, maxItems int) bool\<close>\<close>

definition maybeSplitChild :: "addr \<Rightarrow> nat \<Rightarrow> int \<Rightarrow> bool M" where
  "maybeSplitChild n i maxItems =
     bnd (get_children n) (\<lambda>cs.
      bnd (index cs i) (\<lambda>ch.
       bnd (get_items ch) (\<lambda>chi.
        if int (length chi) < maxItems
        then ret False
        else bnd (mutableChild n i) (\<lambda>first.
         bnd (node_split first (quot2 maxItems)) (\<lambda>(item, second).
          bnd (get_items n) (\<lambda>xs.
           bnd (insertAt i item xs) (\<lambda>xs'.
            sq (set_items n xs')
            (bnd (get_children n) (\<lambda>cs'.
              bnd (insertAt (i + 1) second cs') (\<lambda>cs''.
               sq (set_children n cs'')
               (ret True)))))))))))"

text \<open>\<^verbatim>\<open>func (n *node) insert(item Item, maxItems int) Item\<close>. The recursion follows
  child pointers, so it carries fuel: one unit per level. In the leaf branch the source
  calls \<^verbatim>\<open>n.items.insertAt(i, item)\<close> and goes on to
  \<^verbatim>\<open>n.maybeSplitChild(i, maxItems)\<close>.\<close>

fun node_insert :: "nat \<Rightarrow> addr \<Rightarrow> Item \<Rightarrow> int \<Rightarrow> Item option M" where
  "node_insert 0 n item maxItems = panic OutOfFuel"
| "node_insert (Suc k) n item maxItems =
     bnd (get_items n) (\<lambda>xs.
      case items_find xs item of (i, True) \<Rightarrow> bnd (index xs i) (\<lambda>out.
       sq (set_items n (xs[i := item]))
       (ret (Some out)))
        | (i, False) \<Rightarrow> bnd (get_children n) (\<lambda>cs.
       sq (if length cs = 0
        then bnd (insertAt i item xs) (\<lambda>xs'. set_items n xs')
        else ret ())
       (bnd (maybeSplitChild n i maxItems) (\<lambda>did.
         if did
         then bnd (get_items n) (\<lambda>xs2.
          bnd (index xs2 i) (\<lambda>inTree.
           if item < inTree
           then bnd (mutableChild n i) (\<lambda>c. node_insert k c item maxItems)
           else if inTree < item
           then bnd (mutableChild n (i + 1)) (\<lambda>c. node_insert k c item maxItems)
           else sq (set_items n (xs2[i := item]))
           (ret (Some inTree))))
         else bnd (mutableChild n i) (\<lambda>c. node_insert k c item maxItems)))))"

section \<open>The tree handle\<close>

definition load_tree :: "treep \<Rightarrow> BTree M" where
  "load_tree t = (\<lambda>s. if t < length (trees s) then Inr (trees s ! t, s) else Inl (NilDeref, s))"

definition store_tree :: "treep \<Rightarrow> BTree \<Rightarrow> unit M" where
  "store_tree t v = (\<lambda>s. if t < length (trees s) then Inr ((), s\<lparr>trees := (trees s)[t := v]\<rparr>)
                         else Inl (NilDeref, s))"

text \<open>\<^verbatim>\<open>maxItems\<close> is \<^verbatim>\<open>t.degree*2 - 1\<close> and \<^verbatim>\<open>minItems\<close> is \<^verbatim>\<open>t.degree - 1\<close>, in 64-bit
  arithmetic: for a degree above \<open>2^62\<close> the product wraps and \<^verbatim>\<open>maxItems\<close> is negative.\<close>

definition BTree_maxItems :: "BTree \<Rightarrow> int" where
  "BTree_maxItems t = wrap64 (tdegree t * 2 - 1)"

definition BTree_minItems :: "BTree \<Rightarrow> int" where
  "BTree_minItems t = wrap64 (tdegree t - 1)"

definition DefaultFreelistSize :: nat where
  "DefaultFreelistSize = 32"

text \<open>\<^verbatim>\<open>NewWithFreelist(degree, f)\<close>: allocates the context and the handle.\<close>

definition NewWithFreelist :: "int \<Rightarrow> flp \<Rightarrow> treep M" where
  "NewWithFreelist degree f =
     (if degree \<le> 1 then panic BadDegree
      else (\<lambda>s. Inr (length (trees s),
              s\<lparr>cows := cows s @ [f],
                trees := trees s @ [\<lparr>tdegree = degree, tlength = 0, troot = None,
                                     tcow = length (cows s)\<rparr>]\<rparr>)))"

text \<open>\<^verbatim>\<open>New(degree)\<close>: the pool is allocated first, as an argument of the call.\<close>

definition New :: "int \<Rightarrow> treep M" where
  "New degree = bnd (\<lambda>s. Inr (length (fls s), s\<lparr>fls := fls s @ [NewFreeList DefaultFreelistSize]\<rparr>))
                    (\<lambda>f. NewWithFreelist degree f)"

text \<open>\<^verbatim>\<open>func (t *BTree) ReplaceOrInsert(item Item) Item\<close>; a nil item is \<open>None\<close>.\<close>

definition ReplaceOrInsert :: "nat \<Rightarrow> treep \<Rightarrow> Item option \<Rightarrow> Item option M" where
  "ReplaceOrInsert fuel t item =
     (case item of
        None \<Rightarrow> panic NilItem
      | Some x \<Rightarrow>
         bnd (load_tree t) (\<lambda>T.
          case troot T of None \<Rightarrow> bnd (cow_newNode (Some (tcow T))) (\<lambda>r.
           sq (store_tree t (T\<lparr>troot := Some r\<rparr>))
           (bnd (get_items r) (\<lambda>xs.
             sq (set_items r (xs @ [x]))
             (sq (store_tree t (T\<lparr>troot := Some r, tlength := wrap64 (tlength T + 1)\<rparr>))
              (ret None)))))
          | Some r0 \<Rightarrow> bnd (mutableFor r0 (Some (tcow T))) (\<lambda>r1.
           sq (store_tree t (T\<lparr>troot := Some r1\<rparr>))
           (bnd (get_items r1) (\<lambda>xs.
             bnd (if int (length xs) \<ge> BTree_maxItems T
              then bnd (node_split r1 (quot2 (BTree_maxItems T))) (\<lambda>(item2, second).
               bnd (cow_newNode (Some (tcow T))) (\<lambda>nr.
                sq (store_tree t (T\<lparr>troot := Some nr\<rparr>))
                (bnd (get_items nr) (\<lambda>ys.
                  sq (set_items nr (ys @ [item2]))
                  (bnd (get_children nr) (\<lambda>cs.
                    sq (set_children nr (cs @ [r1, second]))
                    (ret nr)))))))
              else ret r1) (\<lambda>root.
              bnd (node_insert fuel root x (BTree_maxItems T)) (\<lambda>out.
               if out = None
               then sq (store_tree t (T\<lparr>troot := Some root, tlength := wrap64 (tlength T + 1)\<rparr>))
               (ret None)
               else ret out)))))))"

section \<open>Delete\<close>

text \<open>\<^verbatim>\<open>n.items[i] = x\<close>\<close>

definition put_item :: "addr \<Rightarrow> nat \<Rightarrow> Item \<Rightarrow> unit M" where
  "put_item n i x =
     bnd (get_items n) (\<lambda>xs.
      if i < length xs
      then set_items n (xs[i := x])
      else panic IndexOutOfRange)"

text \<open>\<^verbatim>\<open>find\<close> on an \<^verbatim>\<open>Item\<close> that may be nil: \<^verbatim>\<open>sort.Search\<close> calls
  \<^verbatim>\<open>item.Less\<close> as soon as the slice is not empty, and that call on a nil
  interface panics.\<close>

definition find_item :: "Item list \<Rightarrow> Item option \<Rightarrow> (nat \<times> bool) M" where
  "find_item xs item =
     (case item of
        None \<Rightarrow> if xs = [] then ret (0, False) else panic NilDeref
      | Some x \<Rightarrow> ret (items_find xs x))"

text \<open>The three rebalancing branches of \<^verbatim>\<open>growChildAndRemove\<close>, each up to the final
  \<^verbatim>\<open>return n.remove(item, minItems, typ)\<close>: steal from the left sibling
  (\<open>i > 0\<close> there).\<close>

definition grow_stealLeft :: "addr \<Rightarrow> nat \<Rightarrow> unit M" where
  "grow_stealLeft n i =
     bnd (mutableChild n i) (\<lambda>child.
      bnd (mutableChild n (i - 1)) (\<lambda>stealFrom.
       bnd (get_items stealFrom) (\<lambda>si.
        bnd (pop si) (\<lambda>(stolenItem, si').
         sq (set_items stealFrom si')
         (bnd (get_items n) (\<lambda>xs.
           bnd (index xs (i - 1)) (\<lambda>sep.
            bnd (get_items child) (\<lambda>ci.
             bnd (insertAt 0 sep ci) (\<lambda>ci'.
              sq (set_items child ci')
              (sq (put_item n (i - 1) stolenItem)
               (bnd (get_children stealFrom) (\<lambda>sc.
                 if length sc > 0
                 then bnd (pop sc) (\<lambda>(c, sc').
                  sq (set_children stealFrom sc')
                  (bnd (get_children child) (\<lambda>cc.
                    bnd (insertAt 0 c cc) (\<lambda>cc'. set_children child cc'))))
                 else ret ()))))))))))))"

text \<open>Steal from the right sibling.\<close>

definition grow_stealRight :: "addr \<Rightarrow> nat \<Rightarrow> unit M" where
  "grow_stealRight n i =
     bnd (mutableChild n i) (\<lambda>child.
      bnd (mutableChild n (i + 1)) (\<lambda>stealFrom.
       bnd (get_items stealFrom) (\<lambda>si.
        bnd (removeAt 0 si) (\<lambda>(stolenItem, si').
         sq (set_items stealFrom si')
         (bnd (get_items n) (\<lambda>xs.
           bnd (index xs i) (\<lambda>sep.
            bnd (get_items child) (\<lambda>ci.
             sq (set_items child (ci @ [sep]))
             (sq (put_item n i stolenItem)
              (bnd (get_children stealFrom) (\<lambda>sc.
                if length sc > 0
                then bnd (removeAt 0 sc) (\<lambda>(c, sc').
                 sq (set_children stealFrom sc')
                 (bnd (get_children child) (\<lambda>cc. set_children child (cc @ [c]))))
                else ret ())))))))))))"

text \<open>Merge child \<open>i\<close> with its right sibling (\<open>i\<close> already moved left if it was the last).\<close>

definition grow_merge :: "addr \<Rightarrow> nat \<Rightarrow> unit M" where
  "grow_merge n i =
     bnd (mutableChild n i) (\<lambda>child.
      bnd (get_items n) (\<lambda>xs.
       bnd (removeAt i xs) (\<lambda>(mergeItem, xs').
        sq (set_items n xs')
        (bnd (get_children n) (\<lambda>cs.
          bnd (removeAt (i + 1) cs) (\<lambda>(mergeChild, cs').
           sq (set_children n cs')
           (bnd (get_items child) (\<lambda>ci.
             sq (set_items child (ci @ [mergeItem]))
             (bnd (get_items child) (\<lambda>ci1.
               bnd (get_items mergeChild) (\<lambda>mi.
                sq (set_items child (ci1 @ mi))
                (bnd (get_children child) (\<lambda>cc.
                  bnd (get_children mergeChild) (\<lambda>mc.
                   sq (set_children child (cc @ mc))
                   (bnd (get_cow n) (\<lambda>nc.
                     bnd (cow_freeNode nc mergeChild) (\<lambda>ft. ret ())))))))))))))))))"

text \<open>The choice among them. With \<open>i = 0\<close> and no item, \<^verbatim>\<open>i--\<close> gives -1 and
  \<^verbatim>\<open>n.mutableChild(-1)\<close> panics on the index.\<close>

definition growChild :: "addr \<Rightarrow> nat \<Rightarrow> int \<Rightarrow> unit M" where
  "growChild n i minItems =
     bnd (get_children n) (\<lambda>cs.
      bnd (get_items n) (\<lambda>xs.
       bnd (if i > 0
        then bnd (index cs (i - 1)) (\<lambda>l.
         bnd (get_items l) (\<lambda>li. ret (int (length li) > minItems)))
        else ret False) (\<lambda>left.
        if left
        then grow_stealLeft n i
        else bnd (if i < length xs
         then bnd (index cs (i + 1)) (\<lambda>r.
          bnd (get_items r) (\<lambda>ri. ret (int (length ri) > minItems)))
         else ret False) (\<lambda>right.
         if right
         then grow_stealRight n i
         else if i \<ge> length xs
         then (if i = 0
          then panic IndexOutOfRange
          else grow_merge n (i - 1))
         else grow_merge n i))))"

text \<open>\<^verbatim>\<open>func (n *node) remove(item Item, minItems int, typ toRemove) Item\<close>, with one unit
  of fuel per call. \<^verbatim>\<open>growChildAndRemove\<close> is \<open>growChild\<close> followed by the call of
  \<^verbatim>\<open>n.remove\<close> again. The first part of the body either returns (\<open>Inl\<close>) or
  selects the child index and the found flag (\<open>Inr\<close>). A predecessor pulled with
  \<^verbatim>\<open>removeMax\<close> is never nil (lemma \<open>removeMax_not_nil\<close> below), so the branch for a
  nil predecessor is never taken.\<close>

fun node_remove :: "nat \<Rightarrow> addr \<Rightarrow> Item option \<Rightarrow> int \<Rightarrow> toRemove \<Rightarrow> Item option M" where
  "node_remove 0 n item minItems typ = panic OutOfFuel"
| "node_remove (Suc k) n item minItems typ =
     bnd (get_items n) (\<lambda>xs.
      bnd (get_children n) (\<lambda>cs.
       bnd (case typ of removeMax \<Rightarrow> if length cs = 0
        then bnd (pop xs) (\<lambda>(out, xs').
         sq (set_items n xs')
         (ret (Inl (Some out))))
        else ret (Inr (length xs, False))
          | removeMin \<Rightarrow> if length cs = 0
        then bnd (removeAt 0 xs) (\<lambda>(out, xs').
         sq (set_items n xs')
         (ret (Inl (Some out))))
        else ret (Inr (0, False))
          | removeItem \<Rightarrow> bnd (find_item xs item) (\<lambda>(i, found).
         if length cs = 0
         then (if found
          then bnd (removeAt i xs) (\<lambda>(out, xs').
           sq (set_items n xs')
           (ret (Inl (Some out))))
          else ret (Inl None))
         else ret (Inr (i, found)))) (\<lambda>sel.
        case sel of Inl out \<Rightarrow> ret out
          | Inr (i, found) \<Rightarrow> bnd (index cs i) (\<lambda>ch.
         bnd (get_items ch) (\<lambda>chi.
          if int (length chi) \<le> minItems
          then sq (growChild n i minItems) (node_remove k n item minItems typ)
          else bnd (mutableChild n i) (\<lambda>child.
           if found
           then bnd (get_items n) (\<lambda>xs1.
            bnd (index xs1 i) (\<lambda>out.
             bnd (node_remove k child None minItems removeMax) (\<lambda>p.
              case p of None \<Rightarrow> panic NilItem | Some v \<Rightarrow> sq (put_item n i v)
              (ret (Some out)))))
           else node_remove k child item minItems typ))))))"

definition growChildAndRemove ::
    "nat \<Rightarrow> addr \<Rightarrow> nat \<Rightarrow> Item option \<Rightarrow> int \<Rightarrow> toRemove \<Rightarrow> Item option M" where
  "growChildAndRemove k n i item minItems typ =
     sq (growChild n i minItems) (node_remove k n item minItems typ)"

text \<open>\<^verbatim>\<open>func (t *BTree) deleteItem(item Item, typ toRemove) Item\<close>\<close>

definition deleteItem :: "nat \<Rightarrow> treep \<Rightarrow> Item option \<Rightarrow> toRemove \<Rightarrow> Item option M" where
  "deleteItem fuel t item typ =
     bnd (load_tree t) (\<lambda>T.
      case troot T of None \<Rightarrow> ret None | Some r0 \<Rightarrow> bnd (get_items r0) (\<lambda>xs0.
       if length xs0 = 0
       then ret None
       else bnd (mutableFor r0 (Some (tcow T))) (\<lambda>r.
        sq (store_tree t (T\<lparr>troot := Some r\<rparr>))
        (bnd (node_remove fuel r item (BTree_minItems T) typ) (\<lambda>out.
          bnd (get_items r) (\<lambda>xs.
           bnd (get_children r) (\<lambda>cs.
            bnd (if length xs = 0 \<and> length cs > 0
             then bnd (index cs 0) (\<lambda>c0.
              sq (store_tree t (T\<lparr>troot := Some c0\<rparr>))
              (bnd (cow_freeNode (Some (tcow T)) r) (\<lambda>ft. ret c0)))
             else ret r) (\<lambda>root.
             if out \<noteq> None
             then sq (store_tree t (T\<lparr>troot := Some root, tlength := wrap64 (tlength T - 1)\<rparr>))
             (ret out)
             else ret out))))))))"


definition DeleteMin :: "nat \<Rightarrow> treep \<Rightarrow> Item option M" where
  "DeleteMin fuel t = deleteItem fuel t None removeMin"

definition DeleteMax :: "nat \<Rightarrow> treep \<Rightarrow> Item option M" where
  "DeleteMax fuel t = deleteItem fuel t None removeMax"

section \<open>Lookup\<close>

text \<open>\<^verbatim>\<open>func (n *node) get(key Item) Item\<close>\<close>

fun node_get :: "nat \<Rightarrow> addr \<Rightarrow> Item option \<Rightarrow> Item option M" where
  "node_get 0 n key = panic OutOfFuel"
| "node_get (Suc k) n key =
     bnd (get_items n) (\<lambda>xs.
      bnd (find_item xs key) (\<lambda>(i, found).
       if found
       then bnd (index xs i) (\<lambda>x. ret (Some x))
       else bnd (get_children n) (\<lambda>cs.
        if length cs > 0
        then bnd (index cs i) (\<lambda>c. node_get k c key)
        else ret None)))"

text \<open>The loops of \<^verbatim>\<open>min(n)\<close> and \<^verbatim>\<open>max(n)\<close> for a non-nil \<open>n\<close>.\<close>

fun min_node :: "nat \<Rightarrow> addr \<Rightarrow> Item option M" where
  "min_node 0 n = panic OutOfFuel"
| "min_node (Suc k) n =
     bnd (get_children n) (\<lambda>cs.
      if length cs > 0
      then bnd (index cs 0) (\<lambda>c. min_node k c)
      else bnd (get_items n) (\<lambda>xs.
       if length xs = 0
       then ret None
       else ret (Some (xs ! 0))))"

fun max_node :: "nat \<Rightarrow> addr \<Rightarrow> Item option M" where
  "max_node 0 n = panic OutOfFuel"
| "max_node (Suc k) n =
     bnd (get_children n) (\<lambda>cs.
      if length cs > 0
      then bnd (index cs (length cs - 1)) (\<lambda>c. max_node k c)
      else bnd (get_items n) (\<lambda>xs.
       if length xs = 0
       then ret None
       else ret (Some (xs ! (length xs - 1)))))"

definition Get :: "nat \<Rightarrow> treep \<Rightarrow> Item option \<Rightarrow> Item option M" where
  "Get fuel t key = bnd (load_tree t) (\<lambda>T.
     case troot T of None \<Rightarrow> ret None | Some r \<Rightarrow> node_get fuel r key)"

definition Has :: "nat \<Rightarrow> treep \<Rightarrow> Item option \<Rightarrow> bool M" where
  "Has fuel t key = bnd (Get fuel t key) (\<lambda>r. ret (r \<noteq> None))"

definition Min :: "nat \<Rightarrow> treep \<Rightarrow> Item option M" where
  "Min fuel t = bnd (load_tree t) (\<lambda>T.
     case troot T of None \<Rightarrow> ret None | Some r \<Rightarrow> min_node fuel r)"

definition Max :: "nat \<Rightarrow> treep \<Rightarrow> Item option M" where
  "Max fuel t = bnd (load_tree t) (\<lambda>T.
     case troot T of None \<Rightarrow> ret None | Some r \<Rightarrow> max_node fuel r)"


section \<open>Iteration\<close>

text \<open>A Go \<^verbatim>\<open>for\<close> loop whose body may \<^verbatim>\<open>return\<close>: the body gives \<open>Inl\<close> to
  return from the enclosing function and \<open>Inr\<close> to go on with the next element
  (\<^verbatim>\<open>continue\<close> or the end of the body).\<close>

fun for_each :: "'i list \<Rightarrow> ('i \<Rightarrow> 'a \<Rightarrow> ('b + 'a) M) \<Rightarrow> 'a \<Rightarrow> ('b + 'a) M" where
  "for_each [] body a = ret (Inr a)"
| "for_each (i # is) body a =
     bnd (body i a) (\<lambda>r. case r of Inl b \<Rightarrow> ret (Inl b) | Inr a' \<Rightarrow> for_each is body a')"

datatype direction = descend | ascend

text \<open>\<^verbatim>\<open>func (n *node) iterate(dir, start, stop, includeStart, hit, iter) (bool, bool)\<close>.
  The iterator is a predicate on the element; the elements it has been called on are
  collected, in call order, in the last argument and returned as third component. The
  bodies of the two loops and the visit of the last child come first, as functions of the
  recursive call \<open>rec\<close> (the iteration of a child with the current \<open>hit\<close> and calls):
  the body of the ascending loop, at index \<open>i\<close>.\<close>

definition ascend_body ::
   "(addr \<Rightarrow> bool \<Rightarrow> Item list \<Rightarrow> (bool \<times> bool \<times> Item list) M) \<Rightarrow> Item list \<Rightarrow> addr list
    \<Rightarrow> Item option \<Rightarrow> Item option \<Rightarrow> bool \<Rightarrow> (Item \<Rightarrow> bool) \<Rightarrow> nat \<Rightarrow> bool \<times> Item list
    \<Rightarrow> ((bool \<times> bool \<times> Item list) + (bool \<times> Item list)) M" where
  "ascend_body rec xs cs start stop includeStart iter i =
     (\<lambda>(hit, acc).
       bnd (if length cs > 0
        then bnd (index cs i) (\<lambda>c. rec c hit acc)
        else ret (hit, True, acc)) (\<lambda>(hit1, ok, acc1).
        if \<not> ok
        then ret (Inl (hit1, False, acc1))
        else if \<not> includeStart \<and> \<not> hit1 \<and> (case start of None \<Rightarrow> False | Some a \<Rightarrow> \<not> a < xs ! i)
        then ret (Inr (True, acc1))
        else if (case stop of None \<Rightarrow> False | Some b \<Rightarrow> \<not> xs ! i < b)
        then ret (Inl (True, False, acc1))
        else if \<not> iter (xs ! i)
        then ret (Inl (True, False, acc1 @ [xs ! i]))
        else ret (Inr (True, acc1 @ [xs ! i]))))"

text \<open>The body of the descending loop.\<close>

definition descend_body ::
   "(addr \<Rightarrow> bool \<Rightarrow> Item list \<Rightarrow> (bool \<times> bool \<times> Item list) M) \<Rightarrow> Item list \<Rightarrow> addr list
    \<Rightarrow> Item option \<Rightarrow> Item option \<Rightarrow> bool \<Rightarrow> (Item \<Rightarrow> bool) \<Rightarrow> nat \<Rightarrow> bool \<times> Item list
    \<Rightarrow> ((bool \<times> bool \<times> Item list) + (bool \<times> Item list)) M" where
  "descend_body rec xs cs start stop includeStart iter i =
     (\<lambda>(hit, acc).
       if (case start of None \<Rightarrow> False | Some a \<Rightarrow> \<not> xs ! i < a \<and> (\<not> includeStart \<or> hit \<or> a < xs ! i))
       then ret (Inr (hit, acc))
       else bnd (if length cs > 0
        then bnd (index cs (i + 1)) (\<lambda>c. rec c hit acc)
        else ret (hit, True, acc)) (\<lambda>(hit1, ok, acc1).
        if \<not> ok
        then ret (Inl (hit1, False, acc1))
        else if (case stop of None \<Rightarrow> False | Some b \<Rightarrow> \<not> b < xs ! i)
        then ret (Inl (hit1, False, acc1))
        else if \<not> iter (xs ! i)
        then ret (Inl (True, False, acc1 @ [xs ! i]))
        else ret (Inr (True, acc1 @ [xs ! i]))))"

text \<open>What follows a loop: its \<^verbatim>\<open>return\<close>, or the child after the last element visited
  (\<open>j\<close> is \<^verbatim>\<open>len(n.children)-1\<close> when ascending and 0 when descending).\<close>

definition after_loop ::
   "(addr \<Rightarrow> bool \<Rightarrow> Item list \<Rightarrow> (bool \<times> bool \<times> Item list) M) \<Rightarrow> addr list \<Rightarrow> nat
    \<Rightarrow> ((bool \<times> bool \<times> Item list) + (bool \<times> Item list)) \<Rightarrow> (bool \<times> bool \<times> Item list) M" where
  "after_loop rec cs j r =
     (case r of
        Inl res \<Rightarrow> ret res
      | Inr (hit2, acc2) \<Rightarrow>
          if length cs > 0 then bnd (index cs j) (\<lambda>c. rec c hit2 acc2)
          else ret (hit2, True, acc2))"

text \<open>The function itself. The descending loop runs over \<open>index, index - 1, ..., 0\<close>, that
  is over the reversal of \<open>[0..<index + 1]\<close>, which is empty when \<open>index = -1\<close>; \<open>m\<close>
  stands for \<open>index + 1\<close>.\<close>

fun node_iterate :: "nat \<Rightarrow> addr \<Rightarrow> direction \<Rightarrow> Item option \<Rightarrow> Item option \<Rightarrow> bool \<Rightarrow> bool
    \<Rightarrow> (Item \<Rightarrow> bool) \<Rightarrow> Item list \<Rightarrow> (bool \<times> bool \<times> Item list) M" where
  "node_iterate 0 n dir start stop includeStart hit iter acc = panic OutOfFuel"
| "node_iterate (Suc k) n dir start stop includeStart hit iter acc =
     bnd (get_items n) (\<lambda>xs.
     bnd (get_children n) (\<lambda>cs.
     case dir of
       ascend \<Rightarrow>
         bnd (case start of None \<Rightarrow> ret 0 | Some a \<Rightarrow> ret (fst (items_find xs a))) (\<lambda>first.
         bnd (for_each [first..<length xs]
                (ascend_body (\<lambda>c h a. node_iterate k c dir start stop includeStart h iter a)
                   xs cs start stop includeStart iter)
                (hit, acc))
             (after_loop (\<lambda>c h a. node_iterate k c dir start stop includeStart h iter a)
                cs (length cs - 1)))
     | descend \<Rightarrow>
         bnd (case start of
                None \<Rightarrow> ret (length xs)
              | Some a \<Rightarrow> (case items_find xs a of
                            (i, found) \<Rightarrow> ret (if found then i + 1 else i))) (\<lambda>m.
         bnd (for_each (rev [0..<m])
                (descend_body (\<lambda>c h a. node_iterate k c dir start stop includeStart h iter a)
                   xs cs start stop includeStart iter)
                (hit, acc))
             (after_loop (\<lambda>c h a. node_iterate k c dir start stop includeStart h iter a)
                cs 0))))"

text \<open>The entry points return the list of elements the iterator was called on.\<close>

definition iterate_root ::
    "nat \<Rightarrow> treep \<Rightarrow> direction \<Rightarrow> Item option \<Rightarrow> Item option \<Rightarrow> bool \<Rightarrow> (Item \<Rightarrow> bool)
     \<Rightarrow> Item list M" where
  "iterate_root fuel t dir start stop includeStart iter = bnd (load_tree t) (\<lambda>T.
     case troot T of
       None \<Rightarrow> ret []
     | Some r \<Rightarrow> bnd (node_iterate fuel r dir start stop includeStart False iter [])
                  (\<lambda>(hit, ok, acc). ret acc))"

definition AscendRange :: "nat \<Rightarrow> treep \<Rightarrow> Item option \<Rightarrow> Item option \<Rightarrow> (Item \<Rightarrow> bool) \<Rightarrow> Item list M" where
  "AscendRange fuel t greaterOrEqual lessThn iterator =
     iterate_root fuel t ascend greaterOrEqual lessThn True iterator"

definition AscendLessThan :: "nat \<Rightarrow> treep \<Rightarrow> Item option \<Rightarrow> (Item \<Rightarrow> bool) \<Rightarrow> Item list M" where
  "AscendLessThan fuel t pivot iterator = iterate_root fuel t ascend None pivot False iterator"

definition AscendGreaterOrEqual :: "nat \<Rightarrow> treep \<Rightarrow> Item option \<Rightarrow> (Item \<Rightarrow> bool) \<Rightarrow> Item list M" where
  "AscendGreaterOrEqual fuel t pivot iterator = iterate_root fuel t ascend pivot None True iterator"

definition Ascend :: "nat \<Rightarrow> treep \<Rightarrow> (Item \<Rightarrow> bool) \<Rightarrow> Item list M" where
  "Ascend fuel t iterator = iterate_root fuel t ascend None None False iterator"

definition DescendRange :: "nat \<Rightarrow> treep \<Rightarrow> Item option \<Rightarrow> Item option \<Rightarrow> (Item \<Rightarrow> bool) \<Rightarrow> Item list M" where
  "DescendRange fuel t lessOrEqual greaterThn iterator =
     iterate_root fuel t descend lessOrEqual greaterThn True iterator"

definition DescendLessOrEqual :: "nat \<Rightarrow> treep \<Rightarrow> Item option \<Rightarrow> (Item \<Rightarrow> bool) \<Rightarrow> Item list M" where
  "DescendLessOrEqual fuel t pivot iterator = iterate_root fuel t descend pivot None True iterator"

definition DescendGreaterThan :: "nat \<Rightarrow> treep \<Rightarrow> Item option \<Rightarrow> (Item \<Rightarrow> bool) \<Rightarrow> Item list M" where
  "DescendGreaterThan fuel t pivot iterator = iterate_root fuel t descend None pivot False iterator"

definition Descend :: "nat \<Rightarrow> treep \<Rightarrow> (Item \<Rightarrow> bool) \<Rightarrow> Item list M" where
  "Descend fuel t iterator = iterate_root fuel t descend None None False iterator"

section \<open>Clone and Clear\<close>

text \<open>\<^verbatim>\<open>func (t *BTree) Clone() (t2 *BTree)\<close>: two new contexts, both copies of
  \<^verbatim>\<open>*t.cow\<close>; the handle \<open>t\<close> gets the first, the new handle the second.\<close>

definition Clone :: "treep \<Rightarrow> treep M" where
  "Clone t = bnd (load_tree t) (\<lambda>T. bnd (pool_of (Some (tcow T))) (\<lambda>f.
     (\<lambda>s. Inr (length (trees s),
        s\<lparr>cows := cows s @ [f, f],
          trees := (trees s)[t := T\<lparr>tcow := length (cows s)\<rparr>]
                   @ [T\<lparr>tcow := length (cows s) + 1\<rparr>]\<rparr>))))"

text \<open>\<^verbatim>\<open>func (n *node) reset(c *copyOnWriteContext) bool\<close>; \<^verbatim>\<open>range n.children\<close>
  runs over the children as they are when the loop starts.\<close>

fun node_reset :: "nat \<Rightarrow> addr \<Rightarrow> cowp option \<Rightarrow> bool M" where
  "node_reset 0 n c = panic OutOfFuel"
| "node_reset (Suc k) n c =
     bnd (get_children n) (\<lambda>cs.
      bnd (for_each cs (\<lambda>child u.
        bnd (node_reset k child c) (\<lambda>b. ret (if b
          then Inr ()
          else Inl False))) ()) (\<lambda>r.
       case r of Inl b \<Rightarrow> ret b | Inr u \<Rightarrow> bnd (cow_freeNode c n) (\<lambda>ft. ret (ft \<noteq> ftFreelistFull))))"

text \<open>\<^verbatim>\<open>func (t *BTree) Clear(addNodesToFreelist bool)\<close>\<close>

definition Clear :: "nat \<Rightarrow> treep \<Rightarrow> bool \<Rightarrow> unit M" where
  "Clear fuel t addNodesToFreelist =
     bnd (load_tree t) (\<lambda>T.
      sq (case troot T of None \<Rightarrow> ret () | Some r \<Rightarrow> (if addNodesToFreelist
        then bnd (node_reset fuel r (Some (tcow T))) (\<lambda>b. ret ())
        else ret ())) (store_tree t (T\<lparr>troot := None, tlength := 0\<rparr>)))"

section \<open>Notions used to state the properties\<close>

text \<open>The store before anything is allocated.\<close>

definition empty_store :: state where
  "empty_store = \<lparr>heap = [], cows = [], fls = [], trees = []\<rparr>"

text \<open>The nodes reachable from a node through child pointers.\<close>

inductive reach :: "state \<Rightarrow> addr \<Rightarrow> addr \<Rightarrow> bool" for s :: state and a :: addr where
  reach_self: "reach s a a"
| reach_child: "reach s a b \<Longrightarrow> b < length (heap s) \<Longrightarrow> c \<in> set (children (heap s ! b))
                \<Longrightarrow> reach s a c"

text \<open>A node is writable for a context \<open>c\<close> when its tag is \<open>c\<close> or nil (an address
  not yet allocated counts as writable: it can only become a new node).\<close>

definition writable :: "cowp \<Rightarrow> state \<Rightarrow> addr \<Rightarrow> bool" where
  "writable c s a \<longleftrightarrow>
     (a < length (heap s) \<longrightarrow> cow (heap s ! a) = Some c \<or> cow (heap s ! a) = None)"

text \<open>The invariant of a write through context \<open>c\<close> on handle \<open>t\<close>, started in
  \<open>s0\<close>: \<open>A\<close> is the set of writable addresses, it stays the same; every other node
  keeps its contents; the pools hold writable nodes only; every other handle is
  untouched, and \<open>t\<close> keeps its context.\<close>

definition cow_inv :: "addr set \<Rightarrow> cowp \<Rightarrow> treep \<Rightarrow> state \<Rightarrow> state \<Rightarrow> bool" where
  "cow_inv A c t s0 s \<longleftrightarrow>
     length (heap s0) \<le> length (heap s) \<and>
     (\<forall>a. (a \<in> A) = writable c s a) \<and>
     (\<forall>a < length (heap s0). a \<notin> A \<longrightarrow> heap s ! a = heap s0 ! a) \<and>
     (\<forall>f < length (fls s). \<forall>a \<in> set (freelist (fls s ! f)). a \<in> A) \<and>
     cows s = cows s0 \<and>
     length (trees s) = length (trees s0) \<and>
     (\<forall>u < length (trees s0). u \<noteq> t \<longrightarrow> trees s ! u = trees s0 ! u) \<and>
     (t < length (trees s) \<longrightarrow> tcow (trees s ! t) = c)"

text \<open>A computation keeps an invariant \<open>I\<close>, whether it returns or panics, and a result
  it returns satisfies \<open>post\<close>.\<close>

definition ok :: "(state \<Rightarrow> bool) \<Rightarrow> 'a M \<Rightarrow> ('a \<Rightarrow> bool) \<Rightarrow> bool" where
  "ok I m post \<longleftrightarrow>
     (\<forall>s r s'. I s \<longrightarrow> m s = Inr (r, s') \<longrightarrow> I s' \<and> post r) \<and>
     (\<forall>s e s'. I s \<longrightarrow> m s = Inl (e, s') \<longrightarrow> I s')"

text \<open>Every node in a pool has been cleared by \<^verbatim>\<open>freeNode\<close>: its tag is nil.\<close>

definition pools_clean :: "state \<Rightarrow> bool" where
  "pools_clean s \<longleftrightarrow>
     (\<forall>f < length (fls s). \<forall>a \<in> set (freelist (fls s ! f)).
        a < length (heap s) \<longrightarrow> cow (heap s ! a) = None)"

text \<open>A node belongs to no pool.\<close>

definition pooled :: "state \<Rightarrow> addr \<Rightarrow> bool" where
  "pooled s a \<longleftrightarrow> (\<exists>f < length (fls s). a \<in> set (freelist (fls s ! f)))"

text \<open>The value a computation returns, or the fault it raises, without the store.\<close>

definition result :: "'a M \<Rightarrow> state \<Rightarrow> error + 'a" where
  "result m s = (case m s of Inl (e, s') \<Rightarrow> Inl e | Inr (r, s') \<Rightarrow> Inr r)"

text \<open>A populated tree of degree 2 holding 1..9 in a root and three leaves, all tagged
  with the context of its single handle; used to instantiate the theorems.\<close>

definition example_store :: state where
  "example_store =
     \<lparr>heap = [\<lparr>items = [3, 6], children = [1, 2, 3], cow = Some 0\<rparr>,
              \<lparr>items = [1, 2], children = [], cow = Some 0\<rparr>,
              \<lparr>items = [4, 5], children = [], cow = Some 0\<rparr>,
              \<lparr>items = [7, 8, 9], children = [], cow = Some 0\<rparr>],
      cows = [0], fls = [\<lparr>freelist = [], cap = 32\<rparr>],
      trees = [\<lparr>tdegree = 2, tlength = 9, troot = Some 0, tcow = 0\<rparr>]\<rparr>"

text \<open>A tree of degree 2 whose nodes all hold the minimum of one element: root 2 with
  the leaves 1 and 3.\<close>

definition three_node_store :: state where
  "three_node_store =
     \<lparr>heap = [\<lparr>items = [2], children = [1, 2], cow = Some 0\<rparr>,
              \<lparr>items = [1], children = [], cow = Some 0\<rparr>,
              \<lparr>items = [3], children = [], cow = Some 0\<rparr>],
      cows = [0], fls = [\<lparr>freelist = [], cap = 32\<rparr>],
      trees = [\<lparr>tdegree = 2, tlength = 3, troot = Some 0, tcow = 0\<rparr>]\<rparr>"

text \<open>The store a computation leaves, when it returns and when it panics.\<close>

definition after :: "'a M \<Rightarrow> state \<Rightarrow> state" where
  "after m s = (case m s of Inl (e, s') \<Rightarrow> s' | Inr (r, s') \<Rightarrow> s')"

text \<open>The tree a node stands for: its elements and the trees of its children.\<close>

datatype btree = BNode "Item list" "btree list"

inductive tree_at :: "state \<Rightarrow> addr \<Rightarrow> btree \<Rightarrow> bool" for s :: state where
  tree_at_node: "a < length (heap s) \<Longrightarrow> items (heap s ! a) = xs \<Longrightarrow>
     list_all2 (tree_at s) (children (heap s ! a)) ts \<Longrightarrow> tree_at s a (BNode xs ts)"

text \<open>Children and elements in traversal order: child 0, element 0, child 1, ...\<close>

fun weave :: "Item list list \<Rightarrow> Item list \<Rightarrow> Item list" where
  "weave (c # cs) (x # xs) = c @ x # weave cs xs"
| "weave cs [] = concat cs"
| "weave [] xs = xs"

fun inorder :: "btree \<Rightarrow> Item list" where
  "inorder (BNode xs ts) = weave (map inorder ts) xs"

text \<open>A node is a leaf or has one more child than elements.\<close>

fun shaped :: "btree \<Rightarrow> bool" where
  "shaped (BNode xs ts) \<longleftrightarrow>
     (ts = [] \<or> length ts = length xs + 1) \<and> list_all shaped ts"

fun height :: "btree \<Rightarrow> nat" where
  "height (BNode xs ts) = Suc (foldr (\<lambda>t m. max (height t) m) ts 0)"

text \<open>The elements an iterator is called on when it is offered a sequence: all up to and
  including the first one it answers false to.\<close>

fun calls :: "(Item \<Rightarrow> bool) \<Rightarrow> Item list \<Rightarrow> Item list" where
  "calls iter [] = []"
| "calls iter (x # xs) = (if iter x then x # calls iter xs else [x])"

text \<open>The same with the upper bound \<open>b\<close> of a range scan: the calls made, and whether the
  scan goes on after the sequence.\<close>

fun walk :: "Item \<Rightarrow> (Item \<Rightarrow> bool) \<Rightarrow> Item list \<Rightarrow> Item list \<times> bool" where
  "walk b iter [] = ([], True)"
| "walk b iter (x # xs) =
     (if \<not> x < b then ([], False)
      else if \<not> iter x then ([x], False)
      else (x # fst (walk b iter xs), snd (walk b iter xs)))"



section \<open>The node pool: capacity bound\<close>

lemma release_all_bound:
  "length (freelist f) \<le> cap f \<Longrightarrow>
   length (freelist (release_all f ns)) \<le> cap (release_all f ns) \<and> cap (release_all f ns) = cap f"
proof (induction ns arbitrary: f)
  case Nil
  then show ?case by simp
next
  case (Cons n ns)
  let ?g = "fst (FreeList_freeNode f n)"
  have g: "length (freelist ?g) \<le> cap ?g" and c: "cap ?g = cap f"
    using Cons.prems by (auto simp: FreeList_freeNode_def)
  from Cons.IH [OF g] c show ?case by simp
qed

text \<open>
  C9. A pool created with capacity \<open>c\<close> never holds more than \<open>c\<close> nodes after any
  sequence of releases, its capacity stays \<open>c\<close>, and one more release is accepted,
  and reported as accepted, exactly when the pool holds fewer than \<open>c\<close> nodes:
  then it appends the node, otherwise it leaves the pool as it is.
\<close>

theorem freelist_never_exceeds_capacity:
  "length (freelist (release_all (NewFreeList c) ns)) \<le> c \<and>
   cap (release_all (NewFreeList c) ns) = c \<and>
   snd (FreeList_freeNode (release_all (NewFreeList c) ns) n)
     = (length (freelist (release_all (NewFreeList c) ns)) < c) \<and>
   freelist (fst (FreeList_freeNode (release_all (NewFreeList c) ns) n))
     = (if length (freelist (release_all (NewFreeList c) ns)) < c
        then freelist (release_all (NewFreeList c) ns) @ [n]
        else freelist (release_all (NewFreeList c) ns))"
proof -
  have b: "length (freelist (release_all (NewFreeList c) ns)) \<le> cap (release_all (NewFreeList c) ns)
           \<and> cap (release_all (NewFreeList c) ns) = cap (NewFreeList c)"
    by (rule release_all_bound) (simp add: NewFreeList_def)
  have c: "cap (NewFreeList c) = c" by (simp add: NewFreeList_def)
  from b c show ?thesis by (simp add: FreeList_freeNode_def)
qed

section \<open>Binary search in a node\<close>

lemma search_step_lo: "i < j \<Longrightarrow> \<not> f ((i + j) div 2) \<Longrightarrow> search i j f = search ((i + j) div 2 + 1) j f"
  by (subst search.simps) (simp add: Let_def)

lemma search_step_hi: "i < j \<Longrightarrow> f ((i + j) div 2) \<Longrightarrow> search i j f = search i ((i + j) div 2) f"
  by (subst search.simps) (simp add: Let_def)

lemma search_stop: "\<not> i < j \<Longrightarrow> search i j f = i"
  by (subst search.simps) simp

text \<open>What the loop guarantees for any predicate, monotone or not: the position before
  the result was tested and answered no.\<close>

lemma search_prev:
  "i \<le> j \<Longrightarrow> i \<le> search i j f \<and> search i j f \<le> j \<and> (i < search i j f \<longrightarrow> \<not> f (search i j f - 1))"
proof (induction i j f rule: search.induct)
  case (1 i j f)
  let ?h = "(i + j) div 2"
  show ?case
  proof (cases "i < j")
    case False
    with 1(3) show ?thesis by (simp add: search_stop)
  next
    case lt: True
    show ?thesis
    proof (cases "f ?h")
      case True
      have "i \<le> ?h" using lt by simp
      from 1(2) [OF lt refl _ this] True
      have ih: "i \<le> search i ?h f" "search i ?h f \<le> ?h"
        "i < search i ?h f \<longrightarrow> \<not> f (search i ?h f - 1)" by simp_all
      have e: "search i j f = search i ?h f" by (rule search_step_hi [of i j f, OF lt True])
      have "?h \<le> j" using lt by simp
      with ih show ?thesis unfolding e by simp
    next
      case False
      have "?h + 1 \<le> j" using lt by simp
      from 1(1) [OF lt refl False this]
      have ih: "?h + 1 \<le> search (?h + 1) j f" "search (?h + 1) j f \<le> j"
        "?h + 1 < search (?h + 1) j f \<longrightarrow> \<not> f (search (?h + 1) j f - 1)" by simp_all
      have e: "search i j f = search (?h + 1) j f" by (rule search_step_lo [of i j f, OF lt False])
      have "\<not> f (search (?h + 1) j f - 1)"
      proof (cases "?h + 1 < search (?h + 1) j f")
        case True
        with ih(3) show ?thesis by simp
      next
        case False
        with ih(1) have "search (?h + 1) j f = ?h + 1" by simp
        with \<open>\<not> f ?h\<close> show ?thesis by simp
      qed
      moreover have "i \<le> ?h" using lt by simp
      ultimately show ?thesis unfolding e using ih(1,2) by simp
    qed
  qed
qed



lemma search_spec:
  "i \<le> j \<Longrightarrow> (\<forall>a b. a \<le> b \<and> b < j \<and> f a \<longrightarrow> f b) \<Longrightarrow>
   i \<le> search i j f \<and> search i j f \<le> j \<and>
   (\<forall>k. i \<le> k \<and> k < search i j f \<longrightarrow> \<not> f k) \<and>
   (search i j f < j \<longrightarrow> f (search i j f))"
proof (induction i j f rule: search.induct)
  case (1 i j f)
  show ?case
  proof (cases "i < j")
    case False
    with "1.prems" show ?thesis by (auto simp: search_stop)
  next
    case True
    let ?h = "(i + j) div 2"
    have h: "i \<le> ?h" "?h < j" using True by auto
    show ?thesis
    proof (cases "f ?h")
      case False
      have mono: "\<forall>a b. a \<le> b \<and> b < j \<and> f a \<longrightarrow> f b" using "1.prems"(2) .
      have le: "?h + 1 \<le> j" using h by simp
      note ih = "1.IH"(1) [OF True refl False le mono]
      have low: "\<not> f k" if "k \<le> ?h" for k
        using False mono that h by blast
      have "\<not> f k" if "i \<le> k" "k < search (?h + 1) j f" for k
      proof (cases "k \<le> ?h")
        case True then show ?thesis by (rule low)
      next
        case False
        then have "?h + 1 \<le> k" by simp
        with ih that show ?thesis by blast
      qed
      moreover have "i \<le> search (?h + 1) j f" using ih h by linarith
      ultimately show ?thesis unfolding search_step_lo [of i j f, OF True False] using ih by blast
    next
      case fh: True
      have mono: "\<forall>a b. a \<le> b \<and> b < ?h \<and> f a \<longrightarrow> f b" using "1.prems"(2) h by auto
      note ih = "1.IH"(2) [OF True refl _ h(1) mono]
      have ih': "i \<le> search i ?h f \<and> search i ?h f \<le> ?h \<and>
        (\<forall>k. i \<le> k \<and> k < search i ?h f \<longrightarrow> \<not> f k) \<and>
        (search i ?h f < ?h \<longrightarrow> f (search i ?h f))" using ih fh by simp
      have "f (search i ?h f)"
      proof (cases "search i ?h f < ?h")
        case True with ih' show ?thesis by blast
      next
        case False with ih' have "search i ?h f = ?h" by linarith
        with fh show ?thesis by simp
      qed
      moreover have "search i ?h f \<le> j" using ih' h by linarith
      ultimately show ?thesis unfolding search_step_hi [of i j f, OF True fh] using ih' by blast
    qed
  qed
qed

lemma search_takeWhile:
  assumes "sorted_wrt (<) (xs :: Item list)"
  shows "search 0 (length xs) (\<lambda>n. t < xs ! n) = length (takeWhile (\<lambda>x. \<not> t < x) xs)"
proof -
  let ?f = "\<lambda>n. t < xs ! n"
  let ?n = "search 0 (length xs) ?f"
  have mono: "\<forall>a b. a \<le> b \<and> b < length xs \<and> ?f a \<longrightarrow> ?f b"
  proof (intro allI impI)
    fix a b assume h: "a \<le> b \<and> b < length xs \<and> t < xs ! a"
    show "t < xs ! b"
    proof (cases "a = b")
      case True with h show ?thesis by simp
    next
      case False
      with h have "a < b" by simp
      with assms h have "xs ! a < xs ! b" by (simp add: sorted_wrt_iff_nth_less)
      with h show ?thesis by simp
    qed
  qed
  have sp: "?n \<le> length xs \<and> (\<forall>k. 0 \<le> k \<and> k < ?n \<longrightarrow> \<not> ?f k) \<and> (?n < length xs \<longrightarrow> ?f ?n)"
    using search_spec [of 0 "length xs" ?f, OF _ mono] by simp
  have "takeWhile (\<lambda>x. \<not> t < x) xs = take ?n xs"
    by (rule takeWhile_eq_take_P_nth) (use sp in auto)
  with sp show ?thesis by simp
qed

lemma takeWhile_last_eq:
  assumes "sorted_wrt (<) (xs :: Item list)"
  shows "(t \<in> set xs) =
     (takeWhile (\<lambda>x. \<not> t < x) xs \<noteq> [] \<and> \<not> last (takeWhile (\<lambda>x. \<not> t < x) xs) < t)"
  using assms
proof (induction xs)
  case Nil
  then show ?case by simp
next
  case (Cons x xs)
  then show ?case by (cases xs) (auto simp: not_less)
qed

text \<open>
  C5 (as the code has it). On a strictly increasing slice, let \<open>n\<close> be the first index
  with \<open>target < items[n]\<close> (the length if there is none). \<open>find\<close> returns
  \<open>(n - 1, true)\<close> when \<open>n > 0\<close> and \<open>items[n-1]\<close> is not less than the target,
  and \<open>(n, false)\<close> otherwise; the flag is true exactly when the target is stored.
\<close>

theorem items_find_sorted:
  "sorted_wrt (<) (xs :: Item list) \<Longrightarrow>
   items_find xs t =
     (let n = length (takeWhile (\<lambda>x. \<not> t < x) xs)
      in if 0 < n \<and> \<not> xs ! (n - 1) < t then (n - 1, True) else (n, False)) \<and>
   snd (items_find xs t) = (t \<in> set xs)"
proof -
  assume s: "sorted_wrt (<) xs"
  let ?tw = "takeWhile (\<lambda>x. \<not> t < x) xs"
  have n: "search 0 (length xs) (\<lambda>n. t < xs ! n) = length ?tw"
    by (rule search_takeWhile [OF s])
  have e: "items_find xs t =
     (let n = length ?tw in if 0 < n \<and> \<not> xs ! (n - 1) < t then (n - 1, True) else (n, False))"
    unfolding items_find_def n by simp
  have l: "last ?tw = xs ! (length ?tw - 1)" if "?tw \<noteq> []"
    using that by (simp add: last_conv_nth takeWhile_nth)
  have "snd (items_find xs t) = (?tw \<noteq> [] \<and> \<not> last ?tw < t)"
  proof (cases "?tw = []")
    case True
    then show ?thesis unfolding e by (simp add: Let_def)
  next
    case False
    then show ?thesis unfolding e using l [OF False] by (simp add: Let_def)
  qed
  with takeWhile_last_eq [OF s, of t] e show ?thesis by simp
qed

theorem items_find_sorted_witness:
  "sorted_wrt (<) [1, 2, 3 :: Item] \<and> items_find [1, 2, 3] 2 = (1, True) \<and> (2 :: Item) \<in> set [1, 2, 3]"
  using items_find_sorted [of "[1, 2, 3]" 2] by simp

text \<open>The index returned for a stored target is the target's own index, not the first
  index whose element is greater.\<close>

theorem items_find_index_counterexample:
  "\<not> (fst (items_find [1, 2, 3] 2) = length [1, 2, 3 :: Item] \<or>
      (2 :: Item) < [1, 2, 3] ! fst (items_find [1, 2, 3] 2))"
  by code_simp

section \<open>Inserting a new element into a leaf\<close>

lemmas prim_defs = ret_def panic_def bnd_def sq_def index_def load_def store_def
  get_items_def get_children_def get_cow_def set_items_def set_children_def set_cow_def

lemmas tree_defs = load_tree_def store_tree_def BTree_maxItems_def BTree_minItems_def
  wrap64_def quot2_def position_def

lemmas pool_defs = cow_newNode_def pool_of_def pool_newNode_def pool_freeNode_def load_fl_def
  store_fl_def FreeList_newNode_def FreeList_freeNode_def new_node_def

lemma items_find_le: "fst (items_find xs x) \<le> length xs"
proof -
  have "search 0 (length xs) (\<lambda>n. x < xs ! n) \<le> length xs"
    using search_prev [of 0 "length xs" "\<lambda>n. x < xs ! n"] by simp
  then show ?thesis by (auto simp: items_find_def Let_def)
qed

lemma leaf_insert_absent:
  assumes "n < length (heap s)" "children (heap s ! n) = []"
    "items_find (items (heap s ! n)) item = (i, False)"
  shows "node_insert (Suc k) n item mx s =
         Inl (IndexOutOfRange,
              s\<lparr>heap := (heap s)[n := (heap s ! n)\<lparr>items :=
                    take i (items (heap s ! n)) @ [item] @ drop i (items (heap s ! n))\<rparr>]\<rparr>)"
proof -
  from items_find_le [of "items (heap s ! n)" item] assms(3)
  have "i \<le> length (items (heap s ! n))" by simp
  then show ?thesis
    using assms
    by (simp add: prim_defs insertAt_def maybeSplitChild_def)
qed

text \<open>
  C1 (the code at a failing input). A tree of degree 2 made by \<open>New\<close> on the empty
  store takes its first element; the second \<open>ReplaceOrInsert\<close>, of a new non-nil
  element, does not return: it panics with an index out of range, whatever the fuel.
  At the fault the root leaf already holds both elements and the count is still 1.
\<close>

theorem ReplaceOrInsert_second_element_panics:
  "bnd (New 2) (\<lambda>t. bnd (ReplaceOrInsert (Suc k) t (Some 5))
                 (\<lambda>_. ReplaceOrInsert (Suc k) t (Some 3))) empty_store
   = Inl (IndexOutOfRange,
          \<lparr>heap = [\<lparr>items = [3, 5], children = [], cow = Some 0\<rparr>], cows = [0],
           fls = [\<lparr>freelist = [], cap = 32\<rparr>],
           trees = [\<lparr>tdegree = 2, tlength = 1, troot = Some 0, tcow = 0\<rparr>]\<rparr>)"
  by (simp add: DefaultFreelistSize_def prim_defs tree_defs pool_defs empty_store_def New_def NewWithFreelist_def
      ReplaceOrInsert_def NewFreeList_def mutableFor_def items_find_def search.simps
      insertAt_def maybeSplitChild_def)

text \<open>
  C2 (the code at the failing inputs). On a leaf that does not hold the element,
  \<open>insert\<close> puts the element at the index \<open>find\<close> returned, but it does not stop after
  \<open>insertAt\<close>: it goes on to \<open>maybeSplitChild\<close>, which reads \<open>n.children[i]\<close> of the
  empty child list, and the call panics.
\<close>

theorem node_insert_leaf_reads_child:
  "n < length (heap s) \<Longrightarrow> children (heap s ! n) = [] \<Longrightarrow>
   items_find (items (heap s ! n)) item = (i, False) \<Longrightarrow>
   node_insert (Suc k) n item maxItems s =
   Inl (IndexOutOfRange,
        s\<lparr>heap := (heap s)[n := (heap s ! n)\<lparr>items :=
              take i (items (heap s ! n)) @ [item] @ drop i (items (heap s ! n))\<rparr>]\<rparr>)"
  by (rule leaf_insert_absent)

theorem node_insert_leaf_reads_child_witness:
  "node_insert (Suc 0) 0 3 3
     \<lparr>heap = [\<lparr>items = [5], children = [], cow = Some 0\<rparr>], cows = [0],
      fls = [\<lparr>freelist = [], cap = 32\<rparr>], trees = []\<rparr>
   = Inl (IndexOutOfRange,
      \<lparr>heap = [\<lparr>items = [3, 5], children = [], cow = Some 0\<rparr>], cows = [0],
       fls = [\<lparr>freelist = [], cap = 32\<rparr>], trees = []\<rparr>)"
  using node_insert_leaf_reads_child [of 0
     "\<lparr>heap = [\<lparr>items = [5], children = [], cow = Some 0\<rparr>], cows = [0],
      fls = [\<lparr>freelist = [], cap = 32\<rparr>], trees = []\<rparr>" 3 0 0 3]
  by (simp add: items_find_def search.simps)

text \<open>
  C4 (the code at a failing input). The tree holds 5 only and 7 is not stored:
  \<open>ReplaceOrInsert(7)\<close> should return nil and raise the count to 2; it panics, with
  7 in the root leaf and the count left at 1.
\<close>

theorem ReplaceOrInsert_absent_element_panics:
  "bnd (New 3) (\<lambda>t. bnd (ReplaceOrInsert (Suc k) t (Some 5))
                 (\<lambda>_. ReplaceOrInsert (Suc k) t (Some 7))) empty_store
   = Inl (IndexOutOfRange,
          \<lparr>heap = [\<lparr>items = [5, 7], children = [], cow = Some 0\<rparr>], cows = [0],
           fls = [\<lparr>freelist = [], cap = 32\<rparr>],
           trees = [\<lparr>tdegree = 3, tlength = 1, troot = Some 0, tcow = 0\<rparr>]\<rparr>)"
  by (simp add: DefaultFreelistSize_def prim_defs tree_defs pool_defs empty_store_def New_def NewWithFreelist_def
      ReplaceOrInsert_def NewFreeList_def mutableFor_def items_find_def search.simps
      insertAt_def maybeSplitChild_def)

section \<open>Keeping an invariant along a computation\<close>

lemma okI:
  assumes "\<And>s r s'. I s \<Longrightarrow> m s = Inr (r, s') \<Longrightarrow> I s' \<and> post r"
    and "\<And>s e s'. I s \<Longrightarrow> m s = Inl (e, s') \<Longrightarrow> I s'"
  shows "ok I m post"
  unfolding ok_def using assms by blast

lemma ok_Inr: "ok I m post \<Longrightarrow> I s \<Longrightarrow> m s = Inr (r, s') \<Longrightarrow> I s' \<and> post r"
  unfolding ok_def by blast

lemma ok_Inl: "ok I m post \<Longrightarrow> I s \<Longrightarrow> m s = Inl (e, s') \<Longrightarrow> I s'"
  unfolding ok_def by blast

text \<open>A step that, when it panics, has written nothing.\<close>

lemma okI_quiet:
  assumes "\<And>s r s'. I s \<Longrightarrow> m s = Inr (r, s') \<Longrightarrow> I s' \<and> post r"
    and "\<And>s e s'. m s = Inl (e, s') \<Longrightarrow> s' = s"
  shows "ok I m post"
proof (rule okI)
  fix s e s' assume "I s" "m s = Inl (e, s')"
  with assms(2) show "I s'" by blast
qed (rule assms(1))

lemma ok_ret: "post x \<Longrightarrow> ok I (ret x) post"
  by (simp add: ok_def ret_def)

lemma ok_panic: "ok I (panic e) post"
  by (simp add: ok_def panic_def)

lemma bnd_Inr: "bnd m f s = Inr (r, s') \<Longrightarrow> \<exists>x s1. m s = Inr (x, s1) \<and> f x s1 = Inr (r, s')"
  by (cases "m s") (auto simp: bnd_def)

lemma sq_Inr: "sq m k s = Inr (r, s') \<Longrightarrow> \<exists>s1. m s = Inr ((), s1) \<and> k s1 = Inr (r, s')"
  unfolding sq_def by (drule bnd_Inr) simp

lemma bnd_Inl: "bnd m f s = Inl (e, s') \<Longrightarrow>
    m s = Inl (e, s') \<or> (\<exists>x s1. m s = Inr (x, s1) \<and> f x s1 = Inl (e, s'))"
  by (cases "m s") (auto simp: bnd_def)

lemma sq_Inl: "sq m k s = Inl (e, s') \<Longrightarrow>
    m s = Inl (e, s') \<or> (\<exists>s1. m s = Inr ((), s1) \<and> k s1 = Inl (e, s'))"
  unfolding sq_def by (drule bnd_Inl) simp

lemma ok_bnd:
  assumes "ok I m mid" "\<And>x. mid x \<Longrightarrow> ok I (f x) post"
  shows "ok I (bnd m f) post"
proof (rule okI)
  fix s r s' assume i: "I s" and e: "bnd m f s = Inr (r, s')"
  from bnd_Inr [OF e] obtain x s1 where m: "m s = Inr (x, s1)" and f: "f x s1 = Inr (r, s')"
    by blast
  from ok_Inr [OF assms(1) i m] have "I s1" "mid x" by simp_all
  from ok_Inr [OF assms(2) [OF this(2)] this(1) f] show "I s' \<and> post r" .
next
  fix s e s' assume i: "I s" and e: "bnd m f s = Inl (e, s')"
  from bnd_Inl [OF e] show "I s'"
  proof
    assume "m s = Inl (e, s')"
    with assms(1) i show ?thesis by (rule ok_Inl)
  next
    assume "\<exists>x s1. m s = Inr (x, s1) \<and> f x s1 = Inl (e, s')"
    then obtain x s1 where m: "m s = Inr (x, s1)" and f: "f x s1 = Inl (e, s')" by blast
    from ok_Inr [OF assms(1) i m] have "I s1" "mid x" by simp_all
    from ok_Inl [OF assms(2) [OF this(2)] this(1) f] show ?thesis .
  qed
qed

lemma ok_sq:
  assumes "ok I m mid" "ok I k post"
  shows "ok I (sq m k) post"
  unfolding sq_def using assms(1) by (rule ok_bnd) (rule assms(2))

lemma ok_if: "(b \<Longrightarrow> ok I m post) \<Longrightarrow> (\<not> b \<Longrightarrow> ok I m' post) \<Longrightarrow> ok I (if b then m else m') post"
  by simp

lemma ok_bool: "(b \<Longrightarrow> ok I m post) \<Longrightarrow> (\<not> b \<Longrightarrow> ok I m' post)
   \<Longrightarrow> ok I (case b of True \<Rightarrow> m | False \<Rightarrow> m') post"
  by (cases b) simp_all

lemma ok_prod: "(\<And>a b. x = (a, b) \<Longrightarrow> ok I (f a b) post) \<Longrightarrow> ok I (case x of (a, b) \<Rightarrow> f a b) post"
  by (cases x) simp

lemma ok_option: "(x = None \<Longrightarrow> ok I m post) \<Longrightarrow> (\<And>v. x = Some v \<Longrightarrow> ok I (f v) post)
   \<Longrightarrow> ok I (case x of None \<Rightarrow> m | Some v \<Rightarrow> f v) post"
  by (cases x) simp_all

lemma ok_sum: "(\<And>a. x = Inl a \<Longrightarrow> ok I (f a) post) \<Longrightarrow> (\<And>b. x = Inr b \<Longrightarrow> ok I (g b) post)
   \<Longrightarrow> ok I (case x of Inl a \<Rightarrow> f a | Inr b \<Rightarrow> g b) post"
  by (cases x) simp_all

lemma ok_weaken:
  assumes "ok I m mid" "\<And>x. mid x \<Longrightarrow> post x"
  shows "ok I m post"
proof (rule okI)
  fix s r s' assume "I s" "m s = Inr (r, s')"
  with assms(1) have "I s' \<and> mid r" by (rule ok_Inr)
  with assms(2) show "I s' \<and> post r" by simp
next
  fix s e s' assume "I s" "m s = Inl (e, s')"
  with assms(1) show "I s'" by (rule ok_Inl)
qed

lemma ok_True: "ok I m mid \<Longrightarrow> ok I m (\<lambda>_. True)"
  by (erule ok_weaken) simp

lemma ok_readonly:
  assumes "\<And>s r s'. m s = Inr (r, s') \<Longrightarrow> s' = s" "\<And>s e s'. m s = Inl (e, s') \<Longrightarrow> s' = s"
  shows "ok I m (\<lambda>_. True)"
  unfolding ok_def using assms by blast

lemma ok_index: "ok I (index xs i) (\<lambda>_. True)"
  by (simp add: index_def ok_ret ok_panic)

lemma ok_position: "ok I (position i) (\<lambda>_. True)"
  by (simp add: position_def ok_ret ok_panic)

lemma ok_insertAt: "ok I (insertAt i x xs) (\<lambda>_. True)"
  by (simp add: insertAt_def ok_ret ok_panic)

lemma ok_removeAt: "ok I (removeAt i xs) (\<lambda>_. True)"
  by (simp add: removeAt_def ok_ret ok_panic)

lemma ok_pop: "ok I (pop xs) (\<lambda>_. True)"
  by (simp add: pop_def ok_ret ok_panic)

lemma ok_slice_from: "ok I (slice_from i xs) (\<lambda>_. True)"
  by (simp add: slice_from_def ok_ret ok_panic)

lemma ok_find_item: "ok I (find_item xs item) (\<lambda>_. True)"
  by (cases item) (simp_all add: find_item_def ok_ret ok_panic)

section \<open>What the primitive steps do to the store\<close>

lemma load_Inr: "load n s = Inr (r, s') \<Longrightarrow> s' = s \<and> n < length (heap s) \<and> r = heap s ! n"
  by (auto simp: load_def split: if_splits)

lemma store_Inr: "store n v s = Inr (r, s') \<Longrightarrow> n < length (heap s) \<and> s' = s\<lparr>heap := (heap s)[n := v]\<rparr>"
  by (auto simp: store_def split: if_splits)

lemma get_items_Inr:
  "get_items n s = Inr (r, s') \<Longrightarrow> s' = s \<and> n < length (heap s) \<and> r = items (heap s ! n)"
  unfolding get_items_def by (auto dest!: bnd_Inr load_Inr simp: ret_def)

lemma get_children_Inr:
  "get_children n s = Inr (r, s') \<Longrightarrow> s' = s \<and> n < length (heap s) \<and> r = children (heap s ! n)"
  unfolding get_children_def by (auto dest!: bnd_Inr load_Inr simp: ret_def)

lemma get_cow_Inr:
  "get_cow n s = Inr (r, s') \<Longrightarrow> s' = s \<and> n < length (heap s) \<and> r = cow (heap s ! n)"
  unfolding get_cow_def by (auto dest!: bnd_Inr load_Inr simp: ret_def)

lemma set_items_Inr: "set_items n xs s = Inr (r, s') \<Longrightarrow>
    n < length (heap s) \<and> s' = s\<lparr>heap := (heap s)[n := (heap s ! n)\<lparr>items := xs\<rparr>]\<rparr>"
  unfolding set_items_def by (auto dest!: bnd_Inr load_Inr store_Inr)

lemma set_children_Inr: "set_children n xs s = Inr (r, s') \<Longrightarrow>
    n < length (heap s) \<and> s' = s\<lparr>heap := (heap s)[n := (heap s ! n)\<lparr>children := xs\<rparr>]\<rparr>"
  unfolding set_children_def by (auto dest!: bnd_Inr load_Inr store_Inr)

lemma set_cow_Inr: "set_cow n xs s = Inr (r, s') \<Longrightarrow>
    n < length (heap s) \<and> s' = s\<lparr>heap := (heap s)[n := (heap s ! n)\<lparr>cow := xs\<rparr>]\<rparr>"
  unfolding set_cow_def by (auto dest!: bnd_Inr load_Inr store_Inr)

text \<open>When one of them panics, nothing has been written.\<close>

lemma load_Inl: "load n s = Inl (e, s') \<Longrightarrow> s' = s"
  by (auto simp: load_def split: if_splits)

lemma store_Inl: "store n v s = Inl (e, s') \<Longrightarrow> s' = s"
  by (auto simp: store_def split: if_splits)

lemma get_items_Inl: "get_items n s = Inl (e, s') \<Longrightarrow> s' = s"
  unfolding get_items_def by (auto dest!: bnd_Inl load_Inl load_Inr simp: ret_def)

lemma get_children_Inl: "get_children n s = Inl (e, s') \<Longrightarrow> s' = s"
  unfolding get_children_def by (auto dest!: bnd_Inl load_Inl load_Inr simp: ret_def)

lemma get_cow_Inl: "get_cow n s = Inl (e, s') \<Longrightarrow> s' = s"
  unfolding get_cow_def by (auto dest!: bnd_Inl load_Inl load_Inr simp: ret_def)

lemma set_items_Inl: "set_items n xs s = Inl (e, s') \<Longrightarrow> s' = s"
  unfolding set_items_def by (auto simp: bnd_def load_def store_def split: if_splits)

lemma set_children_Inl: "set_children n xs s = Inl (e, s') \<Longrightarrow> s' = s"
  unfolding set_children_def by (auto simp: bnd_def load_def store_def split: if_splits)

lemma set_cow_Inl: "set_cow n xs s = Inl (e, s') \<Longrightarrow> s' = s"
  unfolding set_cow_def by (auto simp: bnd_def load_def store_def split: if_splits)

lemma ok_get_items: "ok I (get_items n) (\<lambda>_. True)"
  by (rule ok_readonly) (simp_all add: get_items_Inr get_items_Inl)

lemma ok_get_children: "ok I (get_children n) (\<lambda>_. True)"
  by (rule ok_readonly) (simp_all add: get_children_Inr get_children_Inl)

section \<open>Writes through a context touch writable nodes only\<close>

lemma cow_invI:
  assumes "length (heap s0) \<le> length (heap s)"
    "\<And>a. (a \<in> A) = writable c s a"
    "\<And>a. a < length (heap s0) \<Longrightarrow> a \<notin> A \<Longrightarrow> heap s ! a = heap s0 ! a"
    "\<And>f a. f < length (fls s) \<Longrightarrow> a \<in> set (freelist (fls s ! f)) \<Longrightarrow> a \<in> A"
    "cows s = cows s0" "length (trees s) = length (trees s0)"
    "\<And>u. u < length (trees s0) \<Longrightarrow> u \<noteq> t \<Longrightarrow> trees s ! u = trees s0 ! u"
    "t < length (trees s) \<Longrightarrow> tcow (trees s ! t) = c"
  shows "cow_inv A c t s0 s"
  unfolding cow_inv_def using assms by blast

lemma cow_inv_len: "cow_inv A c t s0 s \<Longrightarrow> length (heap s0) \<le> length (heap s)"
  unfolding cow_inv_def by blast

lemma cow_inv_wr: "cow_inv A c t s0 s \<Longrightarrow> (a \<in> A) = writable c s a"
  unfolding cow_inv_def by blast

lemma cow_inv_un: "cow_inv A c t s0 s \<Longrightarrow> a < length (heap s0) \<Longrightarrow> a \<notin> A \<Longrightarrow> heap s ! a = heap s0 ! a"
  unfolding cow_inv_def by blast

lemma cow_inv_fl:
  "cow_inv A c t s0 s \<Longrightarrow> f < length (fls s) \<Longrightarrow> a \<in> set (freelist (fls s ! f)) \<Longrightarrow> a \<in> A"
  unfolding cow_inv_def by blast

lemma cow_inv_cows: "cow_inv A c t s0 s \<Longrightarrow> cows s = cows s0"
  unfolding cow_inv_def by blast

lemma cow_inv_trees:
  "cow_inv A c t s0 s \<Longrightarrow> length (trees s) = length (trees s0)"
  "cow_inv A c t s0 s \<Longrightarrow> u < length (trees s0) \<Longrightarrow> u \<noteq> t \<Longrightarrow> trees s ! u = trees s0 ! u"
  "cow_inv A c t s0 s \<Longrightarrow> t < length (trees s) \<Longrightarrow> tcow (trees s ! t) = c"
  unfolding cow_inv_def by blast+

lemma cow_inv_store:
  assumes i: "cow_inv A c t s0 s" and a: "a \<in> A" and l: "a < length (heap s)"
    and v: "cow v = Some c \<or> cow v = None"
  shows "cow_inv A c t s0 (s\<lparr>heap := (heap s)[a := v]\<rparr>)"
proof -
  let ?s = "s\<lparr>heap := (heap s)[a := v]\<rparr>"
  have w: "writable c ?s b = writable c s b" for b
  proof (cases "b = a")
    case True
    from i a have "writable c s a" by (simp add: cow_inv_wr)
    with True l v show ?thesis by (simp add: writable_def)
  next
    case False
    then show ?thesis by (simp add: writable_def)
  qed
  show ?thesis
  proof (rule cow_invI)
    show "length (heap s0) \<le> length (heap ?s)" using cow_inv_len [OF i] by simp
    show "(b \<in> A) = writable c ?s b" for b unfolding w by (rule cow_inv_wr [OF i])
    show "heap ?s ! b = heap s0 ! b" if "b < length (heap s0)" "b \<notin> A" for b
    proof -
      from that a have "b \<noteq> a" by blast
      with cow_inv_un [OF i that] show ?thesis by simp
    qed
    show "b \<in> A" if "f < length (fls ?s)" "b \<in> set (freelist (fls ?s ! f))" for f b
      using cow_inv_fl [OF i, of f b] that by simp
    show "cows ?s = cows s0" using cow_inv_cows [OF i] by simp
    show "length (trees ?s) = length (trees s0)" using cow_inv_trees(1) [OF i] by simp
    show "trees ?s ! u = trees s0 ! u" if "u < length (trees s0)" "u \<noteq> t" for u
      using cow_inv_trees(2) [OF i that] by simp
    show "tcow (trees ?s ! t) = c" if "t < length (trees ?s)"
      using cow_inv_trees(3) [OF i] that by simp
  qed
qed

lemma ok_get_cow:
  "ok (cow_inv A c t s0) (get_cow n) (\<lambda>nc. (n \<in> A) = (nc = Some c \<or> nc = None))"
proof (rule okI_quiet)
  fix s r s' assume i: "cow_inv A c t s0 s" and e: "get_cow n s = Inr (r, s')"
  from get_cow_Inr [OF e] have s: "s' = s" and l: "n < length (heap s)" and r: "r = cow (heap s ! n)"
    by simp_all
  have "(n \<in> A) = writable c s n" by (rule cow_inv_wr [OF i])
  with i l show "cow_inv A c t s0 s' \<and> (n \<in> A) = (r = Some c \<or> r = None)"
    unfolding s r by (simp add: writable_def)
next
  fix s e s' assume "get_cow n s = Inl (e, s')"
  then show "s' = s" by (rule get_cow_Inl)
qed

lemma cow_inv_tag:
  "cow_inv A c t s0 s \<Longrightarrow> a \<in> A \<Longrightarrow> a < length (heap s) \<Longrightarrow>
   cow (heap s ! a) = Some c \<or> cow (heap s ! a) = None"
  using cow_inv_wr [of A c t s0 s a] by (simp add: writable_def)

lemma ok_set_items: "a \<in> A \<Longrightarrow> ok (cow_inv A c t s0) (set_items a xs) (\<lambda>_. True)"
proof (rule okI_quiet)
  fix s r s'
  assume a: "a \<in> A" and i: "cow_inv A c t s0 s" and e: "set_items a xs s = Inr (r, s')"
  from set_items_Inr [OF e] have l: "a < length (heap s)"
    and s': "s' = s\<lparr>heap := (heap s)[a := (heap s ! a)\<lparr>items := xs\<rparr>]\<rparr>" by simp_all
  show "cow_inv A c t s0 s' \<and> True"
    unfolding s' using cow_inv_store [OF i a l] cow_inv_tag [OF i a l] by simp
next
  fix s e s' assume "set_items a xs s = Inl (e, s')"
  then show "s' = s" by (rule set_items_Inl)
qed

lemma ok_set_children: "a \<in> A \<Longrightarrow> ok (cow_inv A c t s0) (set_children a xs) (\<lambda>_. True)"
proof (rule okI_quiet)
  fix s r s'
  assume a: "a \<in> A" and i: "cow_inv A c t s0 s" and e: "set_children a xs s = Inr (r, s')"
  from set_children_Inr [OF e] have l: "a < length (heap s)"
    and s': "s' = s\<lparr>heap := (heap s)[a := (heap s ! a)\<lparr>children := xs\<rparr>]\<rparr>" by simp_all
  show "cow_inv A c t s0 s' \<and> True"
    unfolding s' using cow_inv_store [OF i a l] cow_inv_tag [OF i a l] by simp
next
  fix s e s' assume "set_children a xs s = Inl (e, s')"
  then show "s' = s" by (rule set_children_Inl)
qed

lemma ok_set_cow:
  "a \<in> A \<Longrightarrow> nc = Some c \<or> nc = None \<Longrightarrow> ok (cow_inv A c t s0) (set_cow a nc) (\<lambda>_. True)"
proof (rule okI_quiet)
  fix s r s'
  assume a: "a \<in> A" and n: "nc = Some c \<or> nc = None"
    and i: "cow_inv A c t s0 s" and e: "set_cow a nc s = Inr (r, s')"
  from set_cow_Inr [OF e] have l: "a < length (heap s)"
    and s': "s' = s\<lparr>heap := (heap s)[a := (heap s ! a)\<lparr>cow := nc\<rparr>]\<rparr>" by simp_all
  show "cow_inv A c t s0 s' \<and> True"
    unfolding s' using cow_inv_store [OF i a l] n by simp
next
  fix s e s' assume "set_cow a nc s = Inl (e, s')"
  then show "s' = s" by (rule set_cow_Inl)
qed

lemma ok_put_item: "a \<in> A \<Longrightarrow> ok (cow_inv A c t s0) (put_item a i x) (\<lambda>_. True)"
  unfolding put_item_def
  by (rule ok_bnd [OF ok_get_items]) (simp add: ok_set_items ok_panic)

lemma ok_pool_of: "ok I (pool_of c') (\<lambda>_. True)"
  by (rule ok_readonly) (auto simp: pool_of_def split: option.splits if_splits)

lemma load_fl_Inr: "load_fl f s = Inr (r, s') \<Longrightarrow> s' = s \<and> f < length (fls s) \<and> r = fls s ! f"
  by (auto simp: load_fl_def split: if_splits)

lemma store_fl_Inr: "store_fl f v s = Inr (r, s') \<Longrightarrow> f < length (fls s) \<and> s' = s\<lparr>fls := (fls s)[f := v]\<rparr>"
  by (auto simp: store_fl_def split: if_splits)

lemma load_fl_Inl: "load_fl f s = Inl (e, s') \<Longrightarrow> s' = s"
  by (auto simp: load_fl_def split: if_splits)

lemma store_fl_Inl: "store_fl f v s = Inl (e, s') \<Longrightarrow> s' = s"
  by (auto simp: store_fl_def split: if_splits)

lemma pool_newNode_Inl: "pool_newNode f s = Inl (e, s') \<Longrightarrow> s' = s"
  by (auto simp: pool_newNode_def bnd_def sq_def load_fl_def store_fl_def new_node_def ret_def
      split: if_splits prod.splits option.splits)

lemma pool_freeNode_Inl: "pool_freeNode f n s = Inl (e, s') \<Longrightarrow> s' = s"
  by (auto simp: pool_freeNode_def bnd_def sq_def load_fl_def store_fl_def ret_def
      split: if_splits prod.splits)

lemma cow_inv_store_fl:
  assumes i: "cow_inv A c t s0 s" and m: "\<forall>a \<in> set (freelist v). a \<in> A"
  shows "cow_inv A c t s0 (s\<lparr>fls := (fls s)[f := v]\<rparr>)"
proof -
  let ?s = "s\<lparr>fls := (fls s)[f := v]\<rparr>"
  have w: "writable c ?s b = writable c s b" for b by (simp add: writable_def)
  have p: "a \<in> A" if "g < length (fls s)" "a \<in> set (freelist ((fls s)[f := v] ! g))" for g a
  proof (cases "g = f")
    case True
    with that m show ?thesis by simp
  next
    case False
    with that cow_inv_fl [OF i, of g a] show ?thesis by simp
  qed
  show ?thesis
  proof (rule cow_invI)
    show "length (heap s0) \<le> length (heap ?s)" using cow_inv_len [OF i] by simp
    show "(b \<in> A) = writable c ?s b" for b unfolding w by (rule cow_inv_wr [OF i])
    show "heap ?s ! b = heap s0 ! b" if "b < length (heap s0)" "b \<notin> A" for b
      using cow_inv_un [OF i that] by simp
    show "b \<in> A" if "g < length (fls ?s)" "b \<in> set (freelist (fls ?s ! g))" for g b
      using p [of g b] that by simp
    show "cows ?s = cows s0" using cow_inv_cows [OF i] by simp
    show "length (trees ?s) = length (trees s0)" using cow_inv_trees(1) [OF i] by simp
    show "trees ?s ! u = trees s0 ! u" if "u < length (trees s0)" "u \<noteq> t" for u
      using cow_inv_trees(2) [OF i that] by simp
    show "tcow (trees ?s ! t) = c" if "t < length (trees ?s)"
      using cow_inv_trees(3) [OF i] that by simp
  qed
qed

lemma cow_inv_new_node:
  assumes i: "cow_inv A c t s0 s"
  shows "cow_inv A c t s0 (s\<lparr>heap := heap s @ [\<lparr>items = [], children = [], cow = None\<rparr>]\<rparr>)
         \<and> length (heap s) \<in> A"
proof -
  let ?s = "s\<lparr>heap := heap s @ [\<lparr>items = [], children = [], cow = None\<rparr>]\<rparr>"
  have n: "length (heap s) \<in> A" unfolding cow_inv_wr [OF i] by (simp add: writable_def)
  have w: "writable c ?s b = writable c s b" for b
  proof -
    consider "b < length (heap s)" | "b = length (heap s)" | "b > length (heap s)" by linarith
    then show ?thesis by cases (simp_all add: writable_def nth_append)
  qed
  have "cow_inv A c t s0 ?s"
  proof (rule cow_invI)
    show "length (heap s0) \<le> length (heap ?s)" using cow_inv_len [OF i] by simp
    show "(b \<in> A) = writable c ?s b" for b unfolding w by (rule cow_inv_wr [OF i])
    show "heap ?s ! b = heap s0 ! b" if "b < length (heap s0)" "b \<notin> A" for b
      using cow_inv_un [OF i that] cow_inv_len [OF i] that by (simp add: nth_append)
    show "b \<in> A" if "f < length (fls ?s)" "b \<in> set (freelist (fls ?s ! f))" for f b
      using cow_inv_fl [OF i, of f b] that by simp
    show "cows ?s = cows s0" using cow_inv_cows [OF i] by simp
    show "length (trees ?s) = length (trees s0)" using cow_inv_trees(1) [OF i] by simp
    show "trees ?s ! u = trees s0 ! u" if "u < length (trees s0)" "u \<noteq> t" for u
      using cow_inv_trees(2) [OF i that] by simp
    show "tcow (trees ?s ! t) = c" if "t < length (trees ?s)"
      using cow_inv_trees(3) [OF i] that by simp
  qed
  with n show ?thesis by simp
qed

lemma ok_pool_newNode: "ok (cow_inv A c t s0) (pool_newNode f) (\<lambda>n. n \<in> A)"
proof (rule okI_quiet)
  fix s r s' assume i: "cow_inv A c t s0 s" and e: "pool_newNode f s = Inr (r, s')"
  from e obtain fl s1 where l: "load_fl f s = Inr (fl, s1)"
    and k: "(case FreeList_newNode fl of (fl', None) \<Rightarrow> new_node
              | (fl', Some n) \<Rightarrow> sq (store_fl f fl') (ret n)) s1 = Inr (r, s')"
    unfolding pool_newNode_def by (blast dest: bnd_Inr)
  from load_fl_Inr [OF l] have s1: "s1 = s" and f: "f < length (fls s)" and fl: "fl = fls s ! f"
    by simp_all
  show "cow_inv A c t s0 s' \<and> r \<in> A"
  proof (cases "freelist fl = []")
    case True
    with k have "new_node s = Inr (r, s')" by (simp add: FreeList_newNode_def s1)
    then have "r = length (heap s)"
      "s' = s\<lparr>heap := heap s @ [\<lparr>items = [], children = [], cow = None\<rparr>]\<rparr>"
      by (auto simp: new_node_def)
    with cow_inv_new_node [OF i] show ?thesis by simp
  next
    case False
    with k have "sq (store_fl f (fl\<lparr>freelist := butlast (freelist fl)\<rparr>)) (ret (last (freelist fl))) s
        = Inr (r, s')" by (simp add: FreeList_newNode_def s1)
    then have r: "r = last (freelist fl)"
      and s': "s' = s\<lparr>fls := (fls s)[f := fl\<lparr>freelist := butlast (freelist fl)\<rparr>]\<rparr>"
      by (auto dest!: sq_Inr store_fl_Inr simp: ret_def)
    from f fl have m: "\<forall>a \<in> set (freelist fl). a \<in> A" using cow_inv_fl [OF i, of f] by blast
    then have "\<forall>a \<in> set (freelist (fl\<lparr>freelist := butlast (freelist fl)\<rparr>)). a \<in> A"
      by (auto dest: in_set_butlastD)
    from cow_inv_store_fl [OF i this] m False show ?thesis unfolding r s' by simp
  qed
next
  fix s e s' assume "pool_newNode f s = Inl (e, s')"
  then show "s' = s" by (rule pool_newNode_Inl)
qed

lemma ok_pool_freeNode: "n \<in> A \<Longrightarrow> ok (cow_inv A c t s0) (pool_freeNode f n) (\<lambda>_. True)"
proof (rule okI_quiet)
  fix s r s' assume n: "n \<in> A" and i: "cow_inv A c t s0 s" and e: "pool_freeNode f n s = Inr (r, s')"
  from e obtain fl s1 where l: "load_fl f s = Inr (fl, s1)"
    and k: "(case FreeList_freeNode fl n of (fl', out) \<Rightarrow> sq (store_fl f fl') (ret out)) s1
            = Inr (r, s')"
    unfolding pool_freeNode_def by (blast dest: bnd_Inr)
  from load_fl_Inr [OF l] have s1: "s1 = s" and f: "f < length (fls s)" and fl: "fl = fls s ! f"
    by simp_all
  from k have s': "s' = s\<lparr>fls := (fls s)[f := fst (FreeList_freeNode fl n)]\<rparr>"
    by (cases "FreeList_freeNode fl n") (auto dest!: sq_Inr store_fl_Inr simp: ret_def s1)
  from f fl have m: "\<forall>a \<in> set (freelist fl). a \<in> A" using cow_inv_fl [OF i, of f] by blast
  with n have "\<forall>a \<in> set (freelist (fst (FreeList_freeNode fl n))). a \<in> A"
    by (simp add: FreeList_freeNode_def)
  from cow_inv_store_fl [OF i this] show "cow_inv A c t s0 s' \<and> True" unfolding s' by simp
next
  fix s e s' assume "pool_freeNode f n s = Inl (e, s')"
  then show "s' = s" by (rule pool_freeNode_Inl)
qed

lemma ok_bnd_T:
  assumes "ok I m (\<lambda>_. True)" "\<And>x. ok I (f x) post"
  shows "ok I (bnd m f) post"
  using assms(1) by (rule ok_bnd) (rule assms(2))

lemma ok_sq_T:
  assumes "ok I m (\<lambda>_. True)" "ok I k post"
  shows "ok I (sq m k) post"
  using assms by (rule ok_sq)

lemmas ok_pure = ok_index ok_position ok_insertAt ok_removeAt ok_pop ok_slice_from ok_find_item
  ok_get_items ok_get_children ok_pool_of

lemmas ok_ctl = ok_if ok_bool ok_prod ok_option ok_sum ok_panic

lemma ok_cow_newNode:
  "nc = Some c \<or> nc = None \<Longrightarrow> ok (cow_inv A c t s0) (cow_newNode nc) (\<lambda>n. n \<in> A)"
  unfolding cow_newNode_def
  apply (rule ok_bnd_T [OF ok_pool_of])
  apply (rule ok_bnd [OF ok_pool_newNode])
  apply (rule ok_sq_T)
   apply (rule ok_set_cow; assumption)
  apply (rule ok_ret; assumption)
  done

lemma ok_cow_freeNode:
  "nc = Some c \<or> nc = None \<Longrightarrow> ok (cow_inv A c t s0) (cow_freeNode nc m) (\<lambda>_. True)"
  unfolding cow_freeNode_def
  apply (rule ok_bnd [OF ok_get_cow])
  apply (rule ok_if)
   apply (rule ok_bnd_T [OF ok_get_items])
   apply (rule ok_sq_T, rule ok_set_items, simp)
   apply (rule ok_bnd_T [OF ok_get_children])
   apply (rule ok_sq_T, rule ok_set_children, simp)
   apply (rule ok_sq_T, rule ok_set_cow, simp, simp)
   apply (rule ok_bnd_T [OF ok_pool_of])
   apply (rule ok_bnd_T, rule ok_pool_freeNode, simp)
   apply (rule ok_if; rule ok_ret; simp)
  apply (rule ok_ret, simp)
  done

lemma ok_mutableFor:
  "nc = Some c \<or> nc = None \<Longrightarrow> ok (cow_inv A c t s0) (mutableFor n nc) (\<lambda>r. r \<in> A)"
  unfolding mutableFor_def
  apply (rule ok_bnd [OF ok_get_cow])
  apply (rule ok_if)
   apply (rule ok_ret, simp)
  apply (rule ok_bnd [OF ok_cow_newNode], assumption)
  apply (rule ok_bnd_T [OF ok_get_items])
  apply (rule ok_sq_T, rule ok_set_items, assumption)
  apply (rule ok_bnd_T [OF ok_get_children])
  apply (rule ok_sq_T, rule ok_set_children, assumption)
  apply (rule ok_ret, assumption)
  done

lemma ok_mutableChild:
  "n \<in> A \<Longrightarrow> ok (cow_inv A c t s0) (mutableChild n i) (\<lambda>r. r \<in> A)"
  unfolding mutableChild_def
  apply (rule ok_bnd_T [OF ok_get_children])
  apply (rule ok_bnd_T [OF ok_index])
  apply (rule ok_bnd [OF ok_get_cow])
  apply (rule ok_bnd [OF ok_mutableFor], simp)
  apply (rule ok_bnd_T [OF ok_get_children])
  apply (rule ok_if)
   apply (rule ok_sq_T, rule ok_set_children, assumption)
   apply (rule ok_ret, assumption)
  apply (rule ok_panic)
  done

lemma ok_node_split:
  "n \<in> A \<Longrightarrow> ok (cow_inv A c t s0) (node_split n i) (\<lambda>p. snd p \<in> A)"
  unfolding node_split_def
  apply (rule ok_bnd_T [OF ok_get_items])
  apply (rule ok_bnd_T [OF ok_position])
  apply (rule ok_bnd_T [OF ok_index])
  apply (rule ok_bnd [OF ok_get_cow])
  apply (rule ok_bnd [OF ok_cow_newNode], simp)
  apply (rule ok_bnd_T [OF ok_get_items])
  apply (rule ok_bnd_T [OF ok_slice_from])
  apply (rule ok_bnd_T [OF ok_get_items])
  apply (rule ok_sq_T, rule ok_set_items, assumption)
  apply (rule ok_bnd_T [OF ok_get_items])
  apply (rule ok_sq_T, rule ok_set_items, assumption)
  apply (rule ok_bnd_T [OF ok_get_children])
  apply (rule ok_if)
   apply (rule ok_bnd_T [OF ok_slice_from])
   apply (rule ok_bnd_T [OF ok_get_children])
   apply (rule ok_sq_T, rule ok_set_children, assumption)
   apply (rule ok_bnd_T [OF ok_get_children])
   apply (rule ok_sq_T, rule ok_set_children, assumption)
   apply (rule ok_ret, simp)
  apply (rule ok_ret, simp)
  done

lemmas ok_addr = ok_bnd [OF ok_get_cow] ok_bnd [OF ok_cow_newNode] ok_bnd [OF ok_mutableFor]
  ok_bnd [OF ok_mutableChild] ok_bnd [OF ok_node_split]

lemmas ok_unit = ok_set_items ok_set_children ok_set_cow ok_put_item ok_pool_freeNode
  ok_cow_freeNode ok_True [OF ok_mutableChild] ok_ret



lemma ok_grow_stealLeft:
  "n \<in> A \<Longrightarrow> ok (cow_inv A c t s0) (grow_stealLeft n i) (\<lambda>_. True)"
  unfolding grow_stealLeft_def
  by (rule ok_addr ok_bnd_T ok_sq_T ok_pure ok_ctl ok_unit | assumption | simp)+

lemma ok_grow_stealRight:
  "n \<in> A \<Longrightarrow> ok (cow_inv A c t s0) (grow_stealRight n i) (\<lambda>_. True)"
  unfolding grow_stealRight_def
  by (rule ok_addr ok_bnd_T ok_sq_T ok_pure ok_ctl ok_unit | assumption | simp)+

lemma ok_grow_merge:
  "n \<in> A \<Longrightarrow> ok (cow_inv A c t s0) (grow_merge n i) (\<lambda>_. True)"
  unfolding grow_merge_def
  by (rule ok_addr ok_bnd_T ok_sq_T ok_pure ok_ctl ok_unit | assumption | simp)+

lemma ok_growChild:
  "n \<in> A \<Longrightarrow> ok (cow_inv A c t s0) (growChild n i mn) (\<lambda>_. True)"
  unfolding growChild_def
  by (rule ok_addr ok_bnd_T ok_sq_T ok_pure ok_ctl ok_unit
        ok_grow_stealLeft ok_grow_stealRight ok_grow_merge | assumption | simp)+

lemma ok_toRemove:
  "(ty = removeItem \<Longrightarrow> ok I a post) \<Longrightarrow> (ty = removeMin \<Longrightarrow> ok I b post)
   \<Longrightarrow> (ty = removeMax \<Longrightarrow> ok I d post)
   \<Longrightarrow> ok I (case ty of removeItem \<Rightarrow> a | removeMin \<Rightarrow> b | removeMax \<Rightarrow> d) post"
  by (cases ty) simp_all

lemma ok_node_remove:
  "n \<in> A \<Longrightarrow> ok (cow_inv A c t s0) (node_remove k n item mn ty) (\<lambda>_. True)"
proof (induction k arbitrary: n item ty)
  case 0
  show ?case by (simp add: ok_panic)
next
  case (Suc k)
  note ih = Suc.IH
  have n: "n \<in> A" by fact
  show ?case
    unfolding node_remove.simps
    by (rule ok_addr ok_bnd_T ok_sq_T ok_pure ok_ctl ok_toRemove ok_unit ok_growChild ih n
          | assumption | simp)+
qed

lemma ok_for_each:
  assumes "\<And>i a. ok I (body i a) (\<lambda>_. True)"
  shows "ok I (for_each xs body a) (\<lambda>_. True)"
proof (induction xs arbitrary: a)
  case Nil
  show ?case by (simp add: ok_ret)
next
  case (Cons i xs)
  show ?case
    unfolding for_each.simps
    by (rule ok_bnd_T [OF assms] ok_sum ok_ret Cons.IH | simp)+
qed

lemma ok_node_reset:
  "nc = Some c \<or> nc = None \<Longrightarrow> ok (cow_inv A c t s0) (node_reset k n nc) (\<lambda>_. True)"
proof (induction k arbitrary: n)
  case 0
  show ?case by (simp add: ok_panic)
next
  case (Suc k)
  note ih = Suc.IH [OF Suc.prems]
  show ?case
    unfolding node_reset.simps
    apply (rule ok_bnd_T [OF ok_get_children])
    apply (rule ok_bnd_T)
     apply (rule ok_for_each)
     apply (rule ok_bnd_T [OF ih])
     apply (rule ok_ret, simp)
    apply (rule ok_sum)
     apply (rule ok_ret, simp)
    apply (rule ok_bnd_T [OF ok_cow_freeNode [OF Suc.prems]])
    apply (rule ok_ret, simp)
    done
qed

section \<open>Writes through a handle\<close>

lemma load_tree_Inr: "load_tree t s = Inr (r, s') \<Longrightarrow> s' = s \<and> t < length (trees s) \<and> r = trees s ! t"
  by (auto simp: load_tree_def split: if_splits)

lemma store_tree_Inr:
  "store_tree t v s = Inr (r, s') \<Longrightarrow> t < length (trees s) \<and> s' = s\<lparr>trees := (trees s)[t := v]\<rparr>"
  by (auto simp: store_tree_def split: if_splits)

lemma load_tree_Inl: "load_tree t s = Inl (e, s') \<Longrightarrow> s' = s"
  by (auto simp: load_tree_def split: if_splits)

lemma store_tree_Inl: "store_tree t v s = Inl (e, s') \<Longrightarrow> s' = s"
  by (auto simp: store_tree_def split: if_splits)

lemma ok_load_tree: "ok (cow_inv A c t s0) (load_tree t) (\<lambda>T. tcow T = c)"
proof (rule okI_quiet)
  fix s r s' assume i: "cow_inv A c t s0 s" and e: "load_tree t s = Inr (r, s')"
  from load_tree_Inr [OF e] cow_inv_trees(3) [OF i] i
  show "cow_inv A c t s0 s' \<and> tcow r = c" by simp
next
  fix s e s' assume "load_tree t s = Inl (e, s')"
  then show "s' = s" by (rule load_tree_Inl)
qed

lemma ok_store_tree: "tcow v = c \<Longrightarrow> ok (cow_inv A c t s0) (store_tree t v) (\<lambda>_. True)"
proof (rule okI_quiet)
  fix s r s' assume v: "tcow v = c" and i: "cow_inv A c t s0 s"
    and e: "store_tree t v s = Inr (r, s')"
  let ?s = "s\<lparr>trees := (trees s)[t := v]\<rparr>"
  from store_tree_Inr [OF e] have l: "t < length (trees s)" and s': "s' = ?s" by simp_all
  have w: "writable c ?s b = writable c s b" for b by (simp add: writable_def)
  have "cow_inv A c t s0 ?s"
  proof (rule cow_invI)
    show "length (heap s0) \<le> length (heap ?s)" using cow_inv_len [OF i] by simp
    show "(b \<in> A) = writable c ?s b" for b unfolding w by (rule cow_inv_wr [OF i])
    show "heap ?s ! b = heap s0 ! b" if "b < length (heap s0)" "b \<notin> A" for b
      using cow_inv_un [OF i that] by simp
    show "b \<in> A" if "f < length (fls ?s)" "b \<in> set (freelist (fls ?s ! f))" for f b
      using cow_inv_fl [OF i, of f b] that by simp
    show "cows ?s = cows s0" using cow_inv_cows [OF i] by simp
    show "length (trees ?s) = length (trees s0)" using cow_inv_trees(1) [OF i] by simp
    show "trees ?s ! u = trees s0 ! u" if "u < length (trees s0)" "u \<noteq> t" for u
      using cow_inv_trees(2) [OF i that] that by simp
    show "tcow (trees ?s ! t) = c" if "t < length (trees ?s)"
      using v l by simp
  qed
  then show "cow_inv A c t s0 s' \<and> True" unfolding s' by simp
next
  fix s e s' assume "store_tree t v s = Inl (e, s')"
  then show "s' = s" by (rule store_tree_Inl)
qed



lemma ok_deleteItem:
  "ok (cow_inv A c t s0) (deleteItem fuel t item ty) (\<lambda>_. True)"
  unfolding deleteItem_def
  apply (rule ok_bnd [OF ok_load_tree])
  apply (rule ok_addr ok_bnd_T ok_sq_T ok_pure ok_ctl ok_unit ok_store_tree ok_node_remove
          | assumption | simp)+
  done

lemma ok_Clear:
  "ok (cow_inv A c t s0) (Clear fuel t add) (\<lambda>_. True)"
  unfolding Clear_def
  apply (rule ok_bnd [OF ok_load_tree])
  apply (rule ok_addr ok_bnd_T ok_sq_T ok_pure ok_ctl ok_unit ok_store_tree ok_node_reset
          | assumption | simp)+
  done

lemma okD: "ok I m post \<Longrightarrow> I s \<Longrightarrow> m s = Inr (r, s') \<Longrightarrow> I s'"
  unfolding ok_def by blast

lemma ok_after: "ok I m post \<Longrightarrow> I s \<Longrightarrow> I (after m s)"
proof (cases "m s")
  case (Inl p)
  assume "ok I m post" "I s"
  with Inl ok_Inl [of I m post s "fst p" "snd p"] show ?thesis by (simp add: after_def split_beta)
next
  case (Inr p)
  assume "ok I m post" "I s"
  with Inr ok_Inr [of I m post s "fst p" "snd p"] show ?thesis by (simp add: after_def split_beta)
qed

lemma after_Inr: "m s = Inr (r, s') \<Longrightarrow> after m s = s'"
  by (simp add: after_def)

lemma after_Inl: "m s = Inl (e, s') \<Longrightarrow> after m s = s'"
  by (simp add: after_def)

lemma cow_inv_init:
  assumes "pools_clean s" "t < length (trees s)"
  shows "cow_inv {a. writable (tcow (trees s ! t)) s a} (tcow (trees s ! t)) t s s"
proof (rule cow_invI)
  show "b \<in> {a. writable (tcow (trees s ! t)) s a}"
    if "f < length (fls s)" "b \<in> set (freelist (fls s ! f))" for f b
  proof -
    from assms(1) that have "b < length (heap s) \<longrightarrow> cow (heap s ! b) = None"
      unfolding pools_clean_def by blast
    then show ?thesis by (simp add: writable_def)
  qed
  show "(a \<in> {a. writable (tcow (trees s ! t)) s a}) = writable (tcow (trees s ! t)) s a" for a
    by simp
qed (rule le_refl refl)+

text \<open>The frame of a write: whatever a write through handle \<open>t\<close> does, and whether it
  returns or panics on the way, a node tagged with another context keeps its contents
  and enters no pool, the contexts stay, and every other handle stays as it is.\<close>

lemma write_frame:
  assumes ok: "ok (cow_inv {a. writable (tcow (trees s ! t)) s a} (tcow (trees s ! t)) t s) m post"
    and p: "pools_clean s" and t: "t < length (trees s)" and m: "s' = after m s"
  shows "length (heap s) \<le> length (heap s')"
    and "a < length (heap s) \<Longrightarrow> cow (heap s ! a) = Some c' \<Longrightarrow> c' \<noteq> tcow (trees s ! t)
         \<Longrightarrow> heap s' ! a = heap s ! a \<and> \<not> pooled s' a"
    and "cows s' = cows s" and "length (trees s') = length (trees s)"
    and "u < length (trees s) \<Longrightarrow> u \<noteq> t \<Longrightarrow> trees s' ! u = trees s ! u"
    and "tcow (trees s' ! t) = tcow (trees s ! t)"
proof -
  let ?c = "tcow (trees s ! t)"
  let ?A = "{a. writable ?c s a}"
  have i: "cow_inv ?A ?c t s s'" unfolding m by (rule ok_after [OF ok cow_inv_init [OF p t]])
  show "length (heap s) \<le> length (heap s')" by (rule cow_inv_len [OF i])
  show "cows s' = cows s" by (rule cow_inv_cows [OF i])
  show l: "length (trees s') = length (trees s)" by (rule cow_inv_trees(1) [OF i])
  show "trees s' ! u = trees s ! u" if "u < length (trees s)" "u \<noteq> t" for u
    by (rule cow_inv_trees(2) [OF i that])
  show "tcow (trees s' ! t) = ?c" using cow_inv_trees(3) [OF i] l t by simp
  show "heap s' ! a = heap s ! a \<and> \<not> pooled s' a"
    if "a < length (heap s)" "cow (heap s ! a) = Some c'" "c' \<noteq> ?c"
  proof -
    from that have n: "a \<notin> ?A" by (simp add: writable_def)
    from cow_inv_un [OF i that(1) n] have e: "heap s' ! a = heap s ! a" .
    have "\<not> pooled s' a"
    proof
      assume "pooled s' a"
      then obtain f where "f < length (fls s')" "a \<in> set (freelist (fls s' ! f))"
        unfolding pooled_def by blast
      from cow_inv_fl [OF i this] n show False by simp
    qed
    with e show ?thesis by simp
  qed
qed

section \<open>Reads depend on the reachable nodes only\<close>









section \<open>Clone and the ownership of nodes\<close>

lemma cow_freeNode_foreign:
  "n < length (heap s) \<Longrightarrow> cow (heap s ! n) \<noteq> c \<Longrightarrow> cow_freeNode c n s = Inr (ftNotOwned, s)"
  by (simp add: cow_freeNode_def prim_defs)








text \<open>
  C10. \<open>freeNode(c, n)\<close> on a node whose tag is not \<open>c\<close> returns \<open>ftNotOwned\<close> and
  leaves the whole store, so the node and every pool, as it is. Hence \<open>Clear(true)\<close> and a
  delete with its rebalancing, run through a handle, leave every node tagged with another
  context unchanged and put it into no pool, in the store they leave when they return and
  also in the store they leave when they panic.
\<close>

theorem cow_freeNode_not_owned:
  "(n < length (heap s) \<and> cow (heap s ! n) \<noteq> c \<longrightarrow> cow_freeNode c n s = Inr (ftNotOwned, s)) \<and>
   (pools_clean s \<and> t < length (trees s) \<and> a < length (heap s) \<and> cow (heap s ! a) = Some c'
      \<and> c' \<noteq> tcow (trees s ! t)
    \<longrightarrow> heap (after (Clear fuel t True) s) ! a = heap s ! a
        \<and> \<not> pooled (after (Clear fuel t True) s) a) \<and>
   (pools_clean s \<and> t < length (trees s) \<and> a < length (heap s) \<and> cow (heap s ! a) = Some c'
      \<and> c' \<noteq> tcow (trees s ! t)
    \<longrightarrow> heap (after (deleteItem fuel' t item ty) s) ! a = heap s ! a
        \<and> \<not> pooled (after (deleteItem fuel' t item ty) s) a)"
proof (intro conjI impI)
  assume "n < length (heap s) \<and> cow (heap s ! n) \<noteq> c"
  then show "cow_freeNode c n s = Inr (ftNotOwned, s)" by (simp add: cow_freeNode_foreign)
next
  assume h: "pools_clean s \<and> t < length (trees s) \<and> a < length (heap s) \<and> cow (heap s ! a) = Some c'
      \<and> c' \<noteq> tcow (trees s ! t)"
  then have "heap (after (Clear fuel t True) s) ! a = heap s ! a
      \<and> \<not> pooled (after (Clear fuel t True) s) a"
    using write_frame(2) [OF ok_Clear _ _ refl, of s t a c' fuel True] by blast
  then show "heap (after (Clear fuel t True) s) ! a = heap s ! a"
    "\<not> pooled (after (Clear fuel t True) s) a" by simp_all
next
  assume h: "pools_clean s \<and> t < length (trees s) \<and> a < length (heap s) \<and> cow (heap s ! a) = Some c'
      \<and> c' \<noteq> tcow (trees s ! t)"
  then have "heap (after (deleteItem fuel' t item ty) s) ! a = heap s ! a
      \<and> \<not> pooled (after (deleteItem fuel' t item ty) s) a"
    using write_frame(2) [OF ok_deleteItem _ _ refl, of s t a c' fuel' item ty] by blast
  then show "heap (after (deleteItem fuel' t item ty) s) ! a = heap s ! a"
    "\<not> pooled (after (deleteItem fuel' t item ty) s) a" by simp_all
qed

text \<open>The instance: on the clone of the tree 1..9, \<open>freeNode\<close> with the clone's context
  leaves the shared root alone, and so does \<open>Clear(true)\<close>. On the clone of the tree
  with root 2 and leaves 1 and 3, deleting 1 merges the two leaves: the left one is
  copied first, the right one is offered to \<open>freeNode\<close>, and both stay as they were and
  out of the pool.\<close>

theorem cow_freeNode_not_owned_witness:
  "cow_freeNode (Some 2) 0 (after (Clone 0) example_store)
     = Inr (ftNotOwned, after (Clone 0) example_store) \<and>
   result (Clear 3 1 True) (after (Clone 0) example_store) = Inr () \<and>
   heap (after (Clear 3 1 True) (after (Clone 0) example_store)) ! 0 = heap example_store ! 0 \<and>
   \<not> pooled (after (Clear 3 1 True) (after (Clone 0) example_store)) 0 \<and>
   result (deleteItem 5 1 (Some 1) removeItem) (after (Clone 0) three_node_store) = Inr (Some 1) \<and>
   heap (after (deleteItem 5 1 (Some 1) removeItem) (after (Clone 0) three_node_store)) ! 2
     = heap three_node_store ! 2 \<and>
   \<not> pooled (after (deleteItem 5 1 (Some 1) removeItem) (after (Clone 0) three_node_store)) 2 \<and>
   length (heap (after (deleteItem 5 1 (Some 1) removeItem) (after (Clone 0) three_node_store))) = 5"
proof -
  let ?s = "after (Clone 0) example_store"
  let ?s1 = "after (Clear 3 1 True) ?s"
  let ?u = "after (Clone 0) three_node_store"
  let ?u2 = "after (deleteItem 5 1 (Some 1) removeItem) ?u"
  have s: "?s = example_store\<lparr>cows := [0, 0, 0],
      trees := [\<lparr>tdegree = 2, tlength = 9, troot = Some 0, tcow = 1\<rparr>,
                \<lparr>tdegree = 2, tlength = 9, troot = Some 0, tcow = 2\<rparr>]\<rparr>"
    by code_simp
  have u: "?u = three_node_store\<lparr>cows := [0, 0, 0],
      trees := [\<lparr>tdegree = 2, tlength = 3, troot = Some 0, tcow = 1\<rparr>,
                \<lparr>tdegree = 2, tlength = 3, troot = Some 0, tcow = 2\<rparr>]\<rparr>"
    by code_simp
  have p: "pools_clean ?s" unfolding s by (simp add: pools_clean_def example_store_def)
  have q: "pools_clean ?u" unfolding u by (simp add: pools_clean_def three_node_store_def)
  have h: "heap ?s ! 0 = heap example_store ! 0" unfolding s by simp
  have k: "heap ?u ! 2 = heap three_node_store ! 2" unfolding u by simp
  have a: "0 < length (heap ?s)" "cow (heap ?s ! 0) = Some 0" "cow (heap ?s ! 0) \<noteq> Some 2"
    "1 < length (trees ?s)" "0 \<noteq> tcow (trees ?s ! 1)"
    unfolding s by (simp_all add: example_store_def)
  have b: "2 < length (heap ?u)" "cow (heap ?u ! 2) = Some 0"
    "1 < length (trees ?u)" "0 \<noteq> tcow (trees ?u ! 1)"
    unfolding u by (simp_all add: three_node_store_def)
  have c: "result (Clear 3 1 True) ?s = Inr ()" by code_simp
  have d: "result (deleteItem 5 1 (Some 1) removeItem) ?u = Inr (Some 1)" by code_simp
  have e: "length (heap ?u2) = 5" by code_simp
  from cow_freeNode_not_owned [of 0 ?s "Some 2" 1 0 0 3 5 "Some 1" removeItem]
    cow_freeNode_not_owned [of 0 ?u "Some 2" 1 2 0 3 5 "Some 1" removeItem]
    p q a b c d e h k
  show ?thesis by simp
qed

section \<open>Range iteration\<close>

lemma walk_append:
  "walk b iter (A @ B) =
     (if snd (walk b iter A) then (fst (walk b iter A) @ fst (walk b iter B), snd (walk b iter B))
      else walk b iter A)"
  by (induction A) auto

lemma walk_calls: "fst (walk b iter L) = calls iter (takeWhile (\<lambda>x. x < b) L)"
  by (induction L) auto

lemma sorted_filter_takeWhile:
  "sorted_wrt (<) (L :: Item list) \<Longrightarrow> filter (\<lambda>x. x < b) L = takeWhile (\<lambda>x. x < b) L"
proof (induction L)
  case Nil
  show ?case by simp
next
  case (Cons x L)
  show ?case
  proof (cases "x < b")
    case True
    with Cons show ?thesis by simp
  next
    case False
    with Cons.prems have "\<forall>y \<in> set L. \<not> y < b" by auto
    then have "filter (\<lambda>x. x < b) L = []" by (simp add: filter_empty_conv)
    with False show ?thesis by simp
  qed
qed

lemma sorted_filter_ge_dropWhile:
  "sorted_wrt (<) (L :: Item list) \<Longrightarrow> filter (\<lambda>x. a \<le> x) L = drop (length (takeWhile (\<lambda>x. x < a) L)) L"
proof (induction L)
  case Nil
  show ?case by simp
next
  case (Cons x L)
  show ?case
  proof (cases "x < a")
    case True
    with Cons show ?thesis by simp
  next
    case False
    with Cons.prems have "\<forall>y \<in> set L. a \<le> y" by auto
    then have "filter (\<lambda>x. a \<le> x) L = L" by (simp add: filter_id_conv)
    with False show ?thesis by simp
  qed
qed

lemma weave_Nil [simp]: "weave [] ys = ys"
  by (cases ys) simp_all

lemma set_weave: "set xs \<subseteq> set (weave cs xs)"
  by (induction cs xs rule: weave.induct) auto

lemma filter_weave_all:
  "\<forall>x \<in> set xs. P x \<Longrightarrow> filter P (weave cs xs) = weave (map (filter P) cs) xs"
  by (induction cs xs rule: weave.induct) (auto simp: filter_concat filter_id_conv)

lemma filter_weave_sorted:
  assumes "sorted_wrt (<) (weave cs xs)" "cs = [] \<or> length cs = length xs + 1"
  shows "filter (\<lambda>x. a \<le> x) (weave cs xs) =
         weave (drop (length (takeWhile (\<lambda>x. x < a) xs)) (map (filter (\<lambda>x. a \<le> x)) cs))
               (drop (length (takeWhile (\<lambda>x. x < a) xs)) xs)"
  using assms
proof (induction cs xs rule: weave.induct)
  case (1 c cs x xs)
  from "1.prems"(1) have sc: "\<forall>y \<in> set c. y < x" and sw: "sorted_wrt (<) (weave cs xs)"
    and gt: "\<forall>y \<in> set (weave cs xs). x < y"
    by (auto simp: sorted_wrt_append)
  from "1.prems"(2) have sh: "cs = [] \<or> length cs = length xs + 1" by auto
  show ?case
  proof (cases "x < a")
    case True
    with sc have "filter (\<lambda>x. a \<le> x) c = []" by (auto simp: filter_empty_conv)
    with True "1.IH" [OF sw sh] show ?thesis by simp
  next
    case False
    with gt set_weave [of xs cs] have "\<forall>y \<in> set xs. a \<le> y" by fastforce
    from filter_weave_all [OF this, of cs] False show ?thesis by simp
  qed
next
  case (2 cs)
  show ?case by (simp add: filter_concat)
next
  case (3 x xs)
  from "3.prems"(1) have "sorted_wrt (<) (x # xs)" by simp
  from sorted_filter_ge_dropWhile [OF this, of a] show ?case by simp
qed

lemma takeWhile_le_less:
  "sorted_wrt (<) (xs :: Item list) \<Longrightarrow>
   (length (takeWhile (\<lambda>x. \<not> t < x) xs) = length (takeWhile (\<lambda>x. x < t) xs) \<and>
      (0 < length (takeWhile (\<lambda>x. x < t) xs) \<longrightarrow>
         xs ! (length (takeWhile (\<lambda>x. x < t) xs) - 1) < t)) \<or>
   (length (takeWhile (\<lambda>x. \<not> t < x) xs) = Suc (length (takeWhile (\<lambda>x. x < t) xs)) \<and>
      \<not> xs ! length (takeWhile (\<lambda>x. x < t) xs) < t)"
proof (induction xs)
  case Nil
  show ?case by simp
next
  case (Cons x xs)
  from Cons.prems have s: "sorted_wrt (<) xs" by simp
  consider "x < t" | "x = t" | "t < x" by linarith
  then show ?case
  proof cases
    case 1
    note ih = Cons.IH [OF s]
    show ?thesis
    proof (cases "length (takeWhile (\<lambda>x. x < t) xs)")
      case 0
      with 1 ih show ?thesis by auto
    next
      case (Suc m)
      with 1 ih show ?thesis by auto
    qed
  next
    case 2
    with Cons.prems have "\<forall>y \<in> set xs. t < y" by auto
    then have "takeWhile (\<lambda>x. \<not> t < x) xs = []" by (cases xs) auto
    with 2 show ?thesis by simp
  next
    case 3
    then show ?thesis by simp
  qed
qed

lemma find_fst_aux:
  assumes "sorted_wrt (<) (xs :: Item list)"
  shows "(let n = length (takeWhile (\<lambda>x. \<not> t < x) xs)
    in if 0 < n \<and> \<not> xs ! (n - 1) < t then n - 1 else n) = length (takeWhile (\<lambda>x. x < t) xs)"
  using takeWhile_le_less [OF assms, of t] by (auto simp: Let_def)

lemma bnd_eval: "m s = Inr (x, s1) \<Longrightarrow> bnd m f s = f x s1"
  by (simp add: bnd_def)

lemma asc_step:
  fixes rec :: "addr \<Rightarrow> bool \<Rightarrow> Item list \<Rightarrow> (bool \<times> bool \<times> Item list) M"
  assumes e: "(if length cs > 0 then bnd (index cs i) (\<lambda>c. rec c hit acc)
                        else ret (hit, True, acc)) s
                 = Inr ((hit1, snd (walk b iter f), acc @ fst (walk b iter f)), s)"
  shows "ascend_body rec xs cs (Some a) (Some b) True iter i (hit, acc) s =
     Inr ((if \<not> snd (walk b iter f) then Inl (hit1, False, acc @ fst (walk b iter f))
           else if \<not> xs ! i < b then Inl (True, False, acc @ fst (walk b iter f))
           else if \<not> iter (xs ! i) then Inl (True, False, acc @ fst (walk b iter f) @ [xs ! i])
           else Inr (True, acc @ fst (walk b iter f) @ [xs ! i])), s)"
proof -
  let ?M = "if length cs > 0 then bnd (index cs i) (\<lambda>c. rec c hit acc) else ret (hit, True, acc)"
  have k: "bnd ?M K s = K (hit1, snd (walk b iter f), acc @ fst (walk b iter f)) s" for K
    :: "bool \<times> bool \<times> Item list \<Rightarrow> ((bool \<times> bool \<times> Item list) + (bool \<times> Item list)) M"
    using e by (rule bnd_eval)
  show ?thesis
    unfolding ascend_body_def prod.case k by (simp add: ret_def)
qed

lemma asc_loop:
  fixes rec :: "addr \<Rightarrow> bool \<Rightarrow> Item list \<Rightarrow> (bool \<times> bool \<times> Item list) M"
  assumes ch: "\<And>j hit acc. j < length cs \<Longrightarrow> \<exists>hit'. rec (cs ! j) hit acc s =
       Inr ((hit', snd (walk b iter (fs ! j)), acc @ fst (walk b iter (fs ! j))), s)"
    and len: "length fs = length cs" "cs = [] \<or> length cs = length xs + 1"
  shows "i \<le> length xs \<Longrightarrow>
     \<exists>hit'. bnd (for_each [i..<length xs] (ascend_body rec xs cs (Some a) (Some b) True iter)
                   (hit, acc))
               (after_loop rec cs (length cs - 1)) s
       = Inr ((hit', snd (walk b iter (weave (drop i fs) (drop i xs))),
               acc @ fst (walk b iter (weave (drop i fs) (drop i xs)))), s)"
proof (induction "length xs - i" arbitrary: i hit acc)
  case 0
  then have i: "i = length xs" by simp
  show ?case
  proof (cases "cs = []")
    case True
    with len have "fs = []" by simp
    with True i show ?thesis by (simp add: bnd_def ret_def after_loop_def)
  next
    case False
    with len have l: "length cs = length xs + 1" "length fs = length xs + 1" by simp_all
    then have d: "drop i fs = [fs ! length xs]" unfolding i
      by (metis Cons_nth_drop_Suc Suc_eq_plus1 drop_all lessI order_refl)
    from ch [of "length xs" hit acc] l obtain hit' where
      "rec (cs ! length xs) hit acc s = Inr ((hit', snd (walk b iter (fs ! length xs)),
          acc @ fst (walk b iter (fs ! length xs))), s)" by auto
    with False l d show ?thesis unfolding i
      by (intro exI [of _ hit']) (simp add: bnd_def ret_def after_loop_def index_def)
  qed
next
  case (Suc d)
  then have i: "i < length xs" by simp
  let ?body = "ascend_body rec xs cs (Some a) (Some b) True iter"
  let ?f = "if cs = [] then [] else fs ! i"
  let ?rest = "weave (drop (Suc i) fs) (drop (Suc i) xs)"
  have w: "weave (drop i fs) (drop i xs) = ?f @ xs ! i # ?rest"
  proof (cases "cs = []")
    case True
    with len have "fs = []" by simp
    with True i show ?thesis by (simp add: Cons_nth_drop_Suc)
  next
    case False
    with len i have "i < length fs" by simp
    with False i show ?thesis
      by (simp add: Cons_nth_drop_Suc [symmetric])
  qed
  have c: "\<exists>hit1. (if length cs > 0 then bnd (index cs i) (\<lambda>c. rec c hit acc)
                        else ret (hit, True, acc)) s
                 = Inr ((hit1, snd (walk b iter ?f), acc @ fst (walk b iter ?f)), s)"
  proof (cases "cs = []")
    case True
    then show ?thesis by (simp add: ret_def)
  next
    case False
    with len i have j: "i < length cs" by simp
    from ch [OF j, of hit acc] False j show ?thesis by (simp add: bnd_def index_def ret_def)
  qed
  from c obtain hit1 where "(if length cs > 0 then bnd (index cs i) (\<lambda>c. rec c hit acc)
                        else ret (hit, True, acc)) s
                 = Inr ((hit1, snd (walk b iter ?f), acc @ fst (walk b iter ?f)), s)" by blast
  then have
    st: "?body i (hit, acc) s =
     Inr ((if \<not> snd (walk b iter ?f) then Inl (hit1, False, acc @ fst (walk b iter ?f))
           else if \<not> xs ! i < b then Inl (True, False, acc @ fst (walk b iter ?f))
           else if \<not> iter (xs ! i) then Inl (True, False, acc @ fst (walk b iter ?f) @ [xs ! i])
           else Inr (True, acc @ fst (walk b iter ?f) @ [xs ! i])), s)" by (rule asc_step)
  have u: "[i..<length xs] = i # [Suc i..<length xs]" using i by (simp add: upt_conv_Cons)
  have fe: "bnd (for_each [i..<length xs] ?body (hit, acc)) (after_loop rec cs (length cs - 1)) s
       = (case (if \<not> snd (walk b iter ?f) then Inl (hit1, False, acc @ fst (walk b iter ?f))
           else if \<not> xs ! i < b then Inl (True, False, acc @ fst (walk b iter ?f))
           else if \<not> iter (xs ! i) then Inl (True, False, acc @ fst (walk b iter ?f) @ [xs ! i])
           else Inr (True, acc @ fst (walk b iter ?f) @ [xs ! i])) of
            Inl res \<Rightarrow> Inr (res, s)
          | Inr a' \<Rightarrow> bnd (for_each [Suc i..<length xs] ?body a')
                        (after_loop rec cs (length cs - 1)) s)"
    unfolding u for_each.simps
    by (simp add: bnd_def st ret_def after_loop_def split: sum.splits)
  show ?case
  proof (cases "snd (walk b iter ?f) \<and> xs ! i < b \<and> iter (xs ! i)")
    case False
    then show ?thesis unfolding fe w by (auto simp: walk_append)
  next
    case True
    from Suc.hyps(2) i have "d = length xs - Suc i" "Suc i \<le> length xs" by simp_all
    from Suc.hyps(1) [OF this, of True "acc @ fst (walk b iter ?f) @ [xs ! i]"]
    obtain hit' where "bnd (for_each [Suc i..<length xs] ?body (True, acc @ fst (walk b iter ?f) @ [xs ! i]))
               (after_loop rec cs (length cs - 1)) s
       = Inr ((hit', snd (walk b iter ?rest),
               (acc @ fst (walk b iter ?f) @ [xs ! i]) @ fst (walk b iter ?rest)), s)" by blast
    with True show ?thesis unfolding fe w by (intro exI [of _ hit']) (simp add: walk_append)
  qed
qed

lemma items_find_fst:
  assumes "sorted_wrt (<) (xs :: Item list)"
  shows "fst (items_find xs t) = length (takeWhile (\<lambda>x. x < t) xs)"
proof -
  have "fst (items_find xs t) =
      (let n = length (takeWhile (\<lambda>x. \<not> t < x) xs)
       in if 0 < n \<and> \<not> xs ! (n - 1) < t then n - 1 else n)"
    unfolding items_find_def search_takeWhile [OF assms] by (simp add: Let_def)
  with find_fst_aux [OF assms, of t] show ?thesis by simp
qed

lemma sorted_weave_items: "sorted_wrt (<) (weave cs xs) \<Longrightarrow> sorted_wrt (<) xs"
proof (induction cs xs rule: weave.induct)
  case (1 c cs x xs)
  from "1.prems" have s: "sorted_wrt (<) (weave cs xs)" and g: "\<forall>y \<in> set (weave cs xs). x < y"
    by (auto simp: sorted_wrt_append)
  from g set_weave [of xs cs] have "\<forall>y \<in> set xs. x < y" by blast
  with "1.IH" [OF s] show ?case by simp
qed simp_all

lemma sorted_concat_child: "sorted_wrt (<) (concat cs) \<Longrightarrow> c \<in> set cs \<Longrightarrow> sorted_wrt (<) c"
  by (induction cs) (auto simp: sorted_wrt_append)

lemma sorted_weave_child:
  "sorted_wrt (<) (weave cs xs) \<Longrightarrow> c \<in> set cs \<Longrightarrow> sorted_wrt (<) (c :: Item list)"
proof (induction cs xs rule: weave.induct)
  case (1 d cs x xs)
  from "1.prems"(1) have s: "sorted_wrt (<) (weave cs xs)" and d: "sorted_wrt (<) d"
    by (auto simp: sorted_wrt_append)
  from "1.prems"(2) d "1.IH" [OF s] show ?case by auto
next
  case (2 cs)
  then show ?case by (auto intro: sorted_concat_child)
next
  case (3 x xs)
  then show ?case by simp
qed

lemma height_child: "t \<in> set ts \<Longrightarrow> height t \<le> foldr (\<lambda>t m. max (height t) m) ts 0"
  by (induction ts) auto

lemma iterate_tree:
  "tree_at s n bt \<Longrightarrow> shaped bt \<Longrightarrow> sorted_wrt (<) (inorder bt) \<Longrightarrow> height bt \<le> k \<Longrightarrow>
   \<exists>hit'. node_iterate k n ascend (Some a) (Some b) True hit iter acc s =
     Inr ((hit', snd (walk b iter (filter (\<lambda>x. a \<le> x) (inorder bt))),
           acc @ fst (walk b iter (filter (\<lambda>x. a \<le> x) (inorder bt)))), s)"
proof (induction bt arbitrary: n k hit acc)
  case (BNode xs ts)
  from BNode.prems(4) obtain k' where k: "k = Suc k'" by (cases k) auto
  let ?cs = "children (heap s ! n)"
  let ?F = "filter (\<lambda>x. a \<le> x)"
  let ?fs = "map (\<lambda>t. ?F (inorder t)) ts"
  let ?rec = "\<lambda>c h a'. node_iterate k' c ascend (Some a) (Some b) True h iter a'"
  from BNode.prems(1) have n: "n < length (heap s)" "items (heap s ! n) = xs"
    and la: "list_all2 (tree_at s) ?cs ts"
    by (auto elim: tree_at.cases)
  from la have lc: "length ?cs = length ts" by (rule list_all2_lengthD)
  from BNode.prems(2) have sh: "ts = [] \<or> length ts = length xs + 1"
    and shc: "list_all shaped ts" by simp_all
  from BNode.prems(3) have sw: "sorted_wrt (<) (weave (map inorder ts) xs)" by simp
  have sx: "sorted_wrt (<) xs" by (rule sorted_weave_items [OF sw])
  let ?first = "fst (items_find xs a)"
  have first: "?first = length (takeWhile (\<lambda>x. x < a) xs)" by (rule items_find_fst [OF sx])
  have ch: "\<exists>hit'. ?rec (?cs ! j) hit acc s =
       Inr ((hit', snd (walk b iter (?fs ! j)), acc @ fst (walk b iter (?fs ! j))), s)"
    if j: "j < length ?cs" for j hit acc
  proof -
    from j lc have jt: "j < length ts" by simp
    then have m: "ts ! j \<in> set ts" by simp
    from la j have ta: "tree_at s (?cs ! j) (ts ! j)" by (simp add: list_all2_nthD)
    from shc m have s1: "shaped (ts ! j)" by (simp add: list_all_iff)
    from m have "inorder (ts ! j) \<in> set (map inorder ts)" by simp
    from sorted_weave_child [OF sw this] have s2: "sorted_wrt (<) (inorder (ts ! j))" .
    from height_child [OF m] BNode.prems(4) k have h: "height (ts ! j) \<le> k'" by simp
    from BNode.IH [OF m ta s1 s2 h, of hit acc] jt show ?thesis by simp
  qed
  have len: "length ?fs = length ?cs" "?cs = [] \<or> length ?cs = length xs + 1"
    using lc sh by auto
  have fl: "?first \<le> length xs" unfolding first by (rule length_takeWhile_le)
  from asc_loop [of ?cs ?rec s b iter ?fs xs ?first a hit acc, OF ch len fl]
  obtain hit' where lp: "bnd (for_each [?first..<length xs]
         (ascend_body ?rec xs ?cs (Some a) (Some b) True iter) (hit, acc))
       (after_loop ?rec ?cs (length ?cs - 1)) s
     = Inr ((hit', snd (walk b iter (weave (drop ?first ?fs) (drop ?first xs))),
             acc @ fst (walk b iter (weave (drop ?first ?fs) (drop ?first xs)))), s)"
    by blast
  have un: "node_iterate k n ascend (Some a) (Some b) True hit iter acc s =
     bnd (for_each [?first..<length xs]
         (ascend_body ?rec xs ?cs (Some a) (Some b) True iter) (hit, acc))
       (after_loop ?rec ?cs (length ?cs - 1)) s"
  proof -
    have gi: "get_items n s = Inr (xs, s)" and gc: "get_children n s = Inr (?cs, s)"
      using n by (simp_all add: prim_defs)
    have br: "bnd (ret v) f = f v" for v :: nat and f :: "nat \<Rightarrow> (bool \<times> bool \<times> Item list) M"
      by (simp add: bnd_def ret_def)
    show ?thesis
      by (simp only: k node_iterate.simps direction.case option.case br
          bnd_eval [where m = "get_items n" and s = s, OF gi]
          bnd_eval [where m = "get_children n" and s = s, OF gc])
  qed
  from sh have sh': "map inorder ts = [] \<or> length (map inorder ts) = length xs + 1" by simp
  have "?F (inorder (BNode xs ts)) = weave (drop ?first ?fs) (drop ?first xs)"
    using filter_weave_sorted [OF sw sh', of a] by (simp add: first o_def)
  with un lp show ?case by (intro exI [of _ hit']) simp
qed

lemma example_tree:
  "tree_at example_store 0 (BNode [3, 6] [BNode [1, 2] [], BNode [4, 5] [], BNode [7, 8, 9] []])"
  by (rule tree_at.intros) (auto simp: example_store_def intro!: tree_at.intros)

text \<open>
  C7. Let the root of the handle stand for a tree whose nodes are leaves or have one more
  child than elements and whose traversal order is strictly increasing. With fuel for the
  height of the tree, \<open>AscendRange(a, b, iterator)\<close> returns, leaves the store as it is,
  and has called the iterator on the stored elements \<open>x\<close> with \<open>a \<le> x < b\<close>, each once
  and in increasing order, up to and including the first one the iterator answers false
  to, and on nothing else.
\<close>

theorem AscendRange_visits_range:
  assumes t: "t < length (trees s)" "troot (trees s ! t) = Some r"
    and tr: "tree_at s r bt" "shaped bt" "sorted_wrt (<) (inorder bt)"
    and fu: "height bt \<le> fuel"
  shows "AscendRange fuel t (Some a) (Some b) iter s =
         Inr (calls iter (filter (\<lambda>x. a \<le> x \<and> x < b) (inorder bt)), s)"
proof -
  let ?L = "filter (\<lambda>x. a \<le> x) (inorder bt)"
  from iterate_tree [OF tr fu, of a b False iter "[]"] obtain hit' where
    i: "node_iterate fuel r ascend (Some a) (Some b) True False iter [] s =
        Inr ((hit', snd (walk b iter ?L), fst (walk b iter ?L)), s)" by auto
  have "sorted_wrt (<) ?L" using tr(3) by (rule sorted_wrt_filter)
  from sorted_filter_takeWhile [OF this, of b]
  have "fst (walk b iter ?L) = calls iter (filter (\<lambda>x. x < b) ?L)" by (simp add: walk_calls)
  also have "filter (\<lambda>x. x < b) ?L = filter (\<lambda>x. a \<le> x \<and> x < b) (inorder bt)" by simp
  finally have v: "fst (walk b iter ?L) = calls iter (filter (\<lambda>x. a \<le> x \<and> x < b) (inorder bt))" .
  from t i show ?thesis
    unfolding AscendRange_def iterate_root_def v [symmetric]
    by (simp add: bnd_def load_tree_def ret_def)
qed


theorem AscendRange_visits_range_witness:
  "AscendRange 2 0 (Some 2) (Some 8) (\<lambda>x. x \<noteq> 5) example_store = Inr ([2, 3, 4, 5], example_store)"
  using AscendRange_visits_range [OF _ _ example_tree, of 0 2 2 8 "\<lambda>x. x \<noteq> 5"]
  by (simp add: example_store_def)

section \<open>Deleting an element that is not stored\<close>













text \<open>\<^verbatim>\<open>remove\<close> with \<^verbatim>\<open>removeMax\<close> never returns nil, so the branch of the model for a
  nil predecessor is dead.\<close>

lemma bnd_get_items: "n < length (heap s) \<Longrightarrow> bnd (get_items n) f s = f (items (heap s ! n)) s"
  by (simp add: get_items_def load_def bnd_def ret_def)

lemma bnd_get_children:
  "n < length (heap s) \<Longrightarrow> bnd (get_children n) f s = f (children (heap s ! n)) s"
  by (simp add: get_children_def load_def bnd_def ret_def)

lemma bnd_ret: "bnd (ret x) f s = f x s"
  by (simp add: bnd_def ret_def)

lemma removeMax_not_nil:
  "node_remove k n item mn removeMax s = Inr (r, s') \<Longrightarrow> r \<noteq> None"
proof (induction k arbitrary: n s)
  case 0
  then show ?case by (simp add: panic_def)
next
  case (Suc k)
  let ?xs = "items (heap s ! n)" and ?cs = "children (heap s ! n)"
  from Suc.prems have n: "n < length (heap s)"
    by (auto dest!: bnd_Inr get_items_Inr)
  show ?case
  proof (cases "?cs = []")
    case True
    with Suc.prems n show ?thesis
      by (auto simp: bnd_get_items bnd_get_children pop_def ret_def
          dest!: bnd_Inr sq_Inr split: if_splits)
  next
    case False
    with Suc.prems n have
      "bnd (index ?cs (length ?xs)) (\<lambda>ch. bnd (get_items ch) (\<lambda>chi.
         if int (length chi) \<le> mn
         then sq (growChild n (length ?xs) mn) (node_remove k n item mn removeMax)
         else bnd (mutableChild n (length ?xs))
                (\<lambda>child. node_remove k child item mn removeMax))) s = Inr (r, s')"
      by (simp add: bnd_get_items bnd_get_children bnd_ret cong del: if_weak_cong)
    then show ?thesis
      by (auto dest!: bnd_Inr sq_Inr dest: Suc.IH split: if_splits)
  qed
qed

end
